theory Spec2Isabelle
  imports Main "HOL-Library.Log_Nat"
begin

section \<open>Python values: errors, strings, integer parsing\<close>

text \<open>
  The exceptions that the modelled code can meet.  \<open>ValueError\<close>, \<open>IndexError\<close>,
  \<open>OverflowError\<close> and \<open>AttributeError\<close> are Python's own; the last two are raised by the
  browser driver when an element cannot be located or is no longer attached to the page.
\<close>

datatype error =
    ValueError
  | IndexError
  | OverflowError
  | AttributeError
  | NoSuchElementException
  | StaleElementReferenceException

text \<open>
  A display text is a \<open>string\<close>; its characters are read as the code points 0..255.
  \<open>ord\<close> is Python's \<open>ord\<close>.
\<close>

definition ord :: "char \<Rightarrow> nat" where
  "ord c = of_char c"

text \<open>\<open>str.isspace\<close> on one character: U+0009..U+000D, U+001C..U+0020, U+0085, U+00A0.\<close>

definition isspace_char :: "char \<Rightarrow> bool" where
  "isspace_char c =
     (let n = ord c in (9 \<le> n \<and> n \<le> 13) \<or> (28 \<le> n \<and> n \<le> 32) \<or> n = 133 \<or> n = 160)"

text \<open>The decimal digits \<open>0\<close>..\<open>9\<close>, the only characters \<open>int()\<close> reads as digits here.\<close>

definition is_decimal_char :: "char \<Rightarrow> bool" where
  "is_decimal_char c = (let n = ord c in 48 \<le> n \<and> n \<le> 57)"

text \<open>
  \<open>str.isdigit\<close> on one character: the decimal digits and the superscripts
  U+00B2, U+00B3, U+00B9, which \<open>isdigit\<close> accepts and \<open>int()\<close> rejects.
\<close>

definition isdigit_char :: "char \<Rightarrow> bool" where
  "isdigit_char c = (let n = ord c in (48 \<le> n \<and> n \<le> 57) \<or> n = 178 \<or> n = 179 \<or> n = 185)"

definition py_isdigit :: "string \<Rightarrow> bool" where
  "py_isdigit s = (s \<noteq> [] \<and> list_all isdigit_char s)"

text \<open>\<open>s.split()\<close>: the maximal runs of non-whitespace characters, in order.\<close>

fun split_whitespace :: "string \<Rightarrow> string \<Rightarrow> string list" where
  "split_whitespace cur [] = (if cur = [] then [] else [cur])"
| "split_whitespace cur (c # cs) =
     (if isspace_char c
      then (if cur = [] then split_whitespace [] cs else cur # split_whitespace [] cs)
      else split_whitespace (cur @ [c]) cs)"

definition py_split :: "string \<Rightarrow> string list" where
  "py_split s = split_whitespace [] s"

text \<open>\<open>s.split(sep)\<close> for a one-character separator: empty pieces are kept.\<close>

fun split_sep :: "char \<Rightarrow> string \<Rightarrow> string \<Rightarrow> string list" where
  "split_sep sep cur [] = [cur]"
| "split_sep sep cur (c # cs) =
     (if c = sep then cur # split_sep sep [] cs else split_sep sep (cur @ [c]) cs)"

definition py_split_on :: "char \<Rightarrow> string \<Rightarrow> string list" where
  "py_split_on sep s = split_sep sep [] s"

text \<open>\<open>s.replace(",", "")\<close>.\<close>

definition replace_commas :: "string \<Rightarrow> string" where
  "replace_commas s = filter (\<lambda>c. c \<noteq> CHR '','') s"

text \<open>\<open>xs[0]\<close> and \<open>xs[-1]\<close>, which raise \<open>IndexError\<close> on the empty list.\<close>

definition item_first :: "'a list \<Rightarrow> error + 'a" where
  "item_first xs = (case xs of [] \<Rightarrow> Inl IndexError | x # _ \<Rightarrow> Inr x)"

definition item_last :: "'a list \<Rightarrow> error + 'a" where
  "item_last xs = (if xs = [] then Inl IndexError else Inr (last xs))"

text \<open>
  \<open>int(s)\<close> in base 10: surrounding whitespace is stripped, one sign is allowed, the
  digits may be grouped by single underscores; anything else raises \<open>ValueError\<close>.
  The interpreter's optional limit on the length of a decimal string is not modelled.
\<close>

definition strip :: "string \<Rightarrow> string" where
  "strip s = rev (dropWhile isspace_char (rev (dropWhile isspace_char s)))"

fun valid_digits :: "string \<Rightarrow> bool" where
  "valid_digits [] = False"
| "valid_digits [c] = is_decimal_char c"
| "valid_digits (c # d # cs) =
     (is_decimal_char c \<and> (if d = CHR ''_'' then valid_digits cs else valid_digits (d # cs)))"

definition decimal_value :: "string \<Rightarrow> int" where
  "decimal_value ds = foldl (\<lambda>a c. 10 * a + (int (ord c) - 48)) 0 ds"

definition py_int :: "string \<Rightarrow> error + int" where
  "py_int s =
     (let t = strip s;
          neg = (t \<noteq> [] \<and> hd t = CHR ''-'');
          body = (if t \<noteq> [] \<and> (hd t = CHR ''-'' \<or> hd t = CHR ''+'') then tl t else t)
      in if valid_digits body
         then (let n = decimal_value (filter is_decimal_char body) in Inr (if neg then - n else n))
         else Inl ValueError)"


section \<open>Python numbers: \<open>int\<close> and \<open>float\<close>\<close>

text \<open>
  A \<open>float\<close> is a binary64 value: a finite one is given by its exact rational value,
  and the two infinities are values of their own.  Not-a-number cannot arise from the
  operations used here (conversion of an \<open>int\<close>, multiplication by a positive constant,
  subtraction of finite values) and is left out.
\<close>

datatype pyfloat = Fin rat | PosInf | NegInf

datatype pynum = PyInt int | PyFloat pyfloat

text \<open>\<open>flog2 q\<close> is the integer \<open>e\<close> with \<open>2^e \<le> q < 2^(e+1)\<close>, for \<open>q > 0\<close>.\<close>

definition flog2 :: "rat \<Rightarrow> int" where
  "flog2 q = (if 1 \<le> q then bitlen \<lfloor>q\<rfloor> - 1 else - bitlen (\<lceil>1 / q\<rceil> - 1))"

definition round_half_even :: "rat \<Rightarrow> int" where
  "round_half_even x =
     (let f = \<lfloor>x\<rfloor>; r = x - of_int f
      in if r < 1 / 2 then f else if 1 / 2 < r then f + 1 else if even f then f else f + 1)"

text \<open>
  Rounding of an exact value to binary64, to nearest with ties to even: 53 significant
  bits, least exponent \<open>-1022\<close> (below it the spacing stays \<open>2^-1074\<close>), and a result of
  magnitude \<open>2^1024\<close> or more is an overflow.
\<close>

definition round_double :: "rat \<Rightarrow> pyfloat" where
  "round_double q =
     (if q = 0 then Fin 0
      else let a = \<bar>q\<bar>;
               e = max (flog2 a) (- 1022);
               u = 2 powi (e - 52);
               v = of_int (round_half_even (a / u)) * u
           in if 2 powi 1024 \<le> v then (if 0 < q then PosInf else NegInf)
              else Fin (if 0 < q then v else - v))"

text \<open>\<open>float(n)\<close> for an \<open>int\<close>: an overflow raises \<open>OverflowError\<close>.\<close>

definition float_of_int :: "int \<Rightarrow> error + pyfloat" where
  "float_of_int n =
     (case round_double (of_int n) of Fin x \<Rightarrow> Inr (Fin x) | _ \<Rightarrow> Inl OverflowError)"

text \<open>\<open>x * c\<close> for a float \<open>x\<close> and a finite positive float \<open>c\<close>: an overflow gives an infinity.\<close>

definition float_mul_pos :: "pyfloat \<Rightarrow> rat \<Rightarrow> pyfloat" where
  "float_mul_pos x c = (case x of Fin v \<Rightarrow> round_double (v * c) | PosInf \<Rightarrow> PosInf | NegInf \<Rightarrow> NegInf)"

text \<open>\<open>a * c\<close> for a number \<open>a\<close> and a finite positive float \<open>c\<close>: an \<open>int\<close> is converted first.\<close>

definition num_mul_float :: "pynum \<Rightarrow> rat \<Rightarrow> error + pyfloat" where
  "num_mul_float a c =
     (case a of
        PyInt n \<Rightarrow> (case float_of_int n of Inl e \<Rightarrow> Inl e | Inr x \<Rightarrow> Inr (float_mul_pos x c))
      | PyFloat x \<Rightarrow> Inr (float_mul_pos x c))"

text \<open>\<open>x - y\<close> for finite floats.\<close>

definition float_sub :: "rat \<Rightarrow> rat \<Rightarrow> pyfloat" where
  "float_sub x y = round_double (x - y)"

text \<open>
  Comparison is exact, also between an \<open>int\<close> and a \<open>float\<close>.  \<open>exact a\<close> is the value of
  \<open>a\<close> on the extended rational line.
\<close>

fun float_less :: "pyfloat \<Rightarrow> pyfloat \<Rightarrow> bool" where
  "float_less (Fin x) (Fin y) = (x < y)"
| "float_less (Fin x) PosInf = True"
| "float_less (Fin x) NegInf = False"
| "float_less PosInf b = False"
| "float_less NegInf NegInf = False"
| "float_less NegInf b = True"

fun exact :: "pynum \<Rightarrow> pyfloat" where
  "exact (PyInt n) = Fin (of_int n)"
| "exact (PyFloat x) = x"

definition num_less :: "pynum \<Rightarrow> pynum \<Rightarrow> bool" where
  "num_less a b = float_less (exact a) (exact b)"

definition num_le :: "pynum \<Rightarrow> pynum \<Rightarrow> bool" where
  "num_le a b = (\<not> num_less b a)"

text \<open>\<open>max(a, b)\<close> keeps its first argument unless the second is greater.\<close>

definition py_max :: "pynum \<Rightarrow> pynum \<Rightarrow> pynum" where
  "py_max a b = (if num_less a b then b else a)"

section \<open>The browser session as the bot sees it\<close>

datatype message =
    FailedToParse error
  | Purchased int int
  | Status int int int
  | Running pynum
  | Statistics int int int
  | LegacyFailedToParse string
  | NoOfCookies int
  | CounterUpdated pyfloat

text \<open>
  What a call does to the outside: a click on the big cookie, a click on a product
  (a buy, with the product's identity), a printed line.
\<close>

datatype event = CookieClick | Buy nat | Print message

text \<open>
  A located element: its identity, what reading \<open>.text\<close> gives and what \<open>.click()\<close>
  does (\<open>None\<close>: the click succeeds; \<open>Some e\<close>: it raises \<open>e\<close>).
\<close>

record element =
  elem_id :: nat
  elem_text :: "error + string"
  elem_click :: "error option"

text \<open>The page during one call: what each lookup of \<open>CookieClickerPage\<close> returns.\<close>

record page =
  big_cookie :: "error + element"
  cookies_count :: "error + element"
  enabled_products :: "error + element list"

definition buys :: "event list \<Rightarrow> nat list" where
  "buys evs = concat (map (\<lambda>ev. case ev of Buy i \<Rightarrow> [i] | _ \<Rightarrow> []) evs)"

section \<open>\<open>CookieClickerPage\<close>\<close>

text \<open>The two statements of the \<open>try\<close> block of \<open>get_cookie_count\<close>, on the text read.\<close>

definition cookie_count_of_text :: "string \<Rightarrow> error + int" where
  "cookie_count_of_text cookies_text =
     (case item_first (py_split cookies_text) of
        Inl e \<Rightarrow> Inl e
      | Inr tok \<Rightarrow> py_int (replace_commas tok))"

definition get_cookie_count :: "page \<Rightarrow> event list \<times> (error + int)" where
  "get_cookie_count p =
     (case (case cookies_count p of
              Inl e \<Rightarrow> Inl e
            | Inr el \<Rightarrow>
                (case elem_text el of
                   Inl e \<Rightarrow> Inl e
                 | Inr cookies_text \<Rightarrow> cookie_count_of_text cookies_text)) of
        Inr n \<Rightarrow> ([], Inr n)
      | Inl e \<Rightarrow>
          if e = ValueError \<or> e = IndexError
          then ([Print (FailedToParse e)], Inr 0)
          else ([], Inl e))"

definition click_cookie :: "page \<Rightarrow> event list \<times> (error + unit)" where
  "click_cookie p =
     (case big_cookie p of
        Inl e \<Rightarrow> ([], Inl e)
      | Inr el \<Rightarrow> (case elem_click el of Some e \<Rightarrow> ([], Inl e) | None \<Rightarrow> ([CookieClick], Inr ())))"

text \<open>
  The \<open>try\<close> block in the loop of \<open>find_most_expensive_product\<close>, on the product's text:
  \<open>Inr None\<close> when \<open>isdigit\<close> fails, \<open>Inr (Some price)\<close> when a price is read.
\<close>

definition price_of_text :: "string \<Rightarrow> error + int option" where
  "price_of_text t =
     (case item_last (py_split_on (CHR 0x0A) t) of
        Inl e \<Rightarrow> Inl e
      | Inr part \<Rightarrow>
          (let price_text = replace_commas part
           in if py_isdigit price_text
              then (case py_int price_text of Inl e \<Rightarrow> Inl e | Inr price \<Rightarrow> Inr (Some price))
              else Inr None))"

fun find_most_expensive_loop ::
  "element list \<Rightarrow> int \<Rightarrow> element option \<Rightarrow> error + (element option \<times> int)" where
  "find_most_expensive_loop [] max_price most_expensive = Inr (most_expensive, max_price)"
| "find_most_expensive_loop (product # rest) max_price most_expensive =
     (case (case elem_text product of Inl e \<Rightarrow> Inl e | Inr t \<Rightarrow> price_of_text t) of
        Inl e \<Rightarrow>
          if e = ValueError \<or> e = IndexError
          then find_most_expensive_loop rest max_price most_expensive
          else Inl e
      | Inr None \<Rightarrow> find_most_expensive_loop rest max_price most_expensive
      | Inr (Some price) \<Rightarrow>
          if price > max_price
          then find_most_expensive_loop rest price (Some product)
          else find_most_expensive_loop rest max_price most_expensive)"

definition find_most_expensive_product :: "element list \<Rightarrow> error + (element option \<times> int)" where
  "find_most_expensive_product products = find_most_expensive_loop products 0 None"

definition purchase_upgrade :: "element option \<Rightarrow> event list \<times> (error + bool)" where
  "purchase_upgrade product =
     (case product of
        None \<Rightarrow> ([], Inr False)
      | Some el \<Rightarrow>
          (case elem_click el of Some e \<Rightarrow> ([], Inl e) | None \<Rightarrow> ([Buy (elem_id el)], Inr True)))"

section \<open>\<open>CookieClickerBot\<close>\<close>

record bot =
  purchase_threshold :: pynum
  click_count :: int
  purchase_count :: int

definition init_bot :: bot where
  "init_bot = \<lparr>purchase_threshold = PyInt 10, click_count = 0, purchase_count = 0\<rparr>"

text \<open>
  A call returns the bot as it left it, the events in order, and the exception that
  ended the call, if one did.
\<close>

type_synonym outcome = "bot \<times> event list \<times> error option"

definition then_do :: "outcome \<Rightarrow> (bot \<Rightarrow> outcome) \<Rightarrow> outcome" where
  "then_do r f =
     (case r of
        (b, evs, Some e) \<Rightarrow> (b, evs, Some e)
      | (b, evs, None) \<Rightarrow> (case f b of (b', evs', r') \<Rightarrow> (b', evs @ evs', r')))"

definition try_purchase :: "bot \<Rightarrow> page \<Rightarrow> outcome" where
  "try_purchase b p =
     (case get_cookie_count p of
        (ev1, Inl e) \<Rightarrow> (b, ev1, Some e)
      | (ev1, Inr cookies) \<Rightarrow>
          if num_le (purchase_threshold b) (PyInt cookies)
          then (case enabled_products p of
                  Inl e \<Rightarrow> (b, ev1, Some e)
                | Inr products \<Rightarrow>
                    if products \<noteq> []
                    then (case find_most_expensive_product products of
                            Inl e \<Rightarrow> (b, ev1, Some e)
                          | Inr (most_expensive, price) \<Rightarrow>
                              if most_expensive \<noteq> None \<and> price \<le> cookies
                              then (case purchase_upgrade most_expensive of
                                      (ev2, Inl e) \<Rightarrow> (b, ev1 @ ev2, Some e)
                                    | (ev2, Inr _) \<Rightarrow>
                                        (let b1 = b\<lparr>purchase_count := purchase_count b + 1\<rparr>
                                         in case num_mul_float (purchase_threshold b1) (3 / 2) of
                                              Inl e \<Rightarrow> (b1, ev1 @ ev2, Some e)
                                            | Inr x \<Rightarrow>
                                                (b1\<lparr>purchase_threshold :=
                                                      py_max (PyInt (price * 2)) (PyFloat x)\<rparr>,
                                                 ev1 @ ev2 @ [Print (Purchased price (purchase_count b1))],
                                                 None)))
                              else (b, ev1, None))
                    else (b, ev1, None))
          else (b, ev1, None))"

definition print_statistics :: "bot \<Rightarrow> page \<Rightarrow> outcome" where
  "print_statistics b p =
     (case get_cookie_count p of
        (ev, Inl e) \<Rightarrow> (b, ev, Some e)
      | (ev, Inr final_cookies) \<Rightarrow>
          (b, ev @ [Print (Statistics (click_count b) (purchase_count b) final_cookies)], None))"

text \<open>The body of the \<open>while\<close> loop of \<open>run\<close>.\<close>

definition run_body :: "bot \<Rightarrow> page \<Rightarrow> outcome" where
  "run_body b p =
     (case click_cookie p of
        (ev, Inl e) \<Rightarrow> (b, ev, Some e)
      | (ev, Inr _) \<Rightarrow>
          then_do
            (then_do (b\<lparr>click_count := click_count b + 1\<rparr>, ev, None)
               (\<lambda>b1. if click_count b1 mod 10 = 0 then try_purchase b1 p else (b1, [], None)))
            (\<lambda>b2. if click_count b2 mod 100 = 0
                  then (case get_cookie_count p of
                          (ev', Inl e) \<Rightarrow> (b2, ev', Some e)
                        | (ev', Inr cookies) \<Rightarrow>
                            (b2, ev' @ [Print (Status (click_count b2) cookies (purchase_count b2))], None))
                  else (b2, [], None)))"

text \<open>
  The clock and the page are inputs: one \<open>frame\<close> per evaluation of the loop condition
  holds the value \<open>time.time()\<close> returns there and the page as it is until the next one.
  \<open>run_loop\<close> is \<open>None\<close> when the frames end while the loop is still running.
\<close>

record frame =
  clock :: rat
  view :: page

fun run_loop :: "pynum \<Rightarrow> rat \<Rightarrow> bot \<Rightarrow> frame list \<Rightarrow> outcome option" where
  "run_loop duration_seconds start_time b [] = None"
| "run_loop duration_seconds start_time b (f # fs) =
     (if num_less (PyFloat (float_sub (clock f) start_time)) duration_seconds
      then (case run_body b (view f) of
              (b', evs, Some e) \<Rightarrow> Some (b', evs, Some e)
            | (b', evs, None) \<Rightarrow>
                map_option (\<lambda>(b'', evs', r). (b'', evs @ evs', r))
                  (run_loop duration_seconds start_time b' fs))
      else Some (print_statistics b (view f)))"

definition run :: "pynum \<Rightarrow> rat \<Rightarrow> bot \<Rightarrow> frame list \<Rightarrow> outcome option" where
  "run duration_seconds start_time b frames =
     map_option (\<lambda>(b', evs, r). (b', Print (Running duration_seconds) # evs, r))
       (run_loop duration_seconds start_time b frames)"

section \<open>The first script, \<open>src/cookie_clicker.py\<close>\<close>

text \<open>
  Its loop has one variable, \<open>counter\<close>, and the two elements it located before the loop.
  One iteration sees: what the click on the cookie does, the text of the counter element,
  and the elements of class \<open>enabled\<close>.
\<close>

record legacy_view =
  cookie_button_click :: "error option"
  cookies_text :: "error + string"
  buy_buttons :: "error + element list"

text \<open>The \<open>for\<close> loop over the buttons: no \<open>try\<close> around it.\<close>

fun legacy_max_loop ::
  "element list \<Rightarrow> int \<Rightarrow> element option \<Rightarrow> error + (element option \<times> int)" where
  "legacy_max_loop [] max_price most_expensive = Inr (most_expensive, max_price)"
| "legacy_max_loop (button # rest) max_price most_expensive =
     (case elem_text button of
        Inl e \<Rightarrow> Inl e
      | Inr t \<Rightarrow>
          (case price_of_text t of
             Inl e \<Rightarrow> Inl e
           | Inr None \<Rightarrow> legacy_max_loop rest max_price most_expensive
           | Inr (Some price) \<Rightarrow>
               if price > max_price
               then legacy_max_loop rest price (Some button)
               else legacy_max_loop rest max_price most_expensive))"

type_synonym legacy_outcome = "pyfloat \<times> event list \<times> error option"

definition legacy_iteration :: "pyfloat \<Rightarrow> legacy_view \<Rightarrow> legacy_outcome" where
  "legacy_iteration counter v =
     (case cookie_button_click v of
        Some e \<Rightarrow> (counter, [], Some e)
      | None \<Rightarrow>
          (case (case cookies_text v of Inl e \<Rightarrow> Inl e | Inr t \<Rightarrow> cookie_count_of_text t) of
             Inl e \<Rightarrow>
               if e = ValueError \<or> e = IndexError
               then (case cookies_text v of
                       Inl e' \<Rightarrow> (counter, [CookieClick], Some e')
                     | Inr t \<Rightarrow> (counter, [CookieClick, Print (LegacyFailedToParse t)], None))
               else (counter, [CookieClick], Some e)
           | Inr no_of_cookies \<Rightarrow>
               (let evs = [CookieClick, Print (NoOfCookies no_of_cookies)]
                in if num_less (PyFloat (float_mul_pos counter 10)) (PyInt no_of_cookies)
                   then (case buy_buttons v of
                           Inl e \<Rightarrow> (counter, evs, Some e)
                         | Inr buttons \<Rightarrow>
                             (case legacy_max_loop buttons 0 None of
                                Inl e \<Rightarrow> (counter, evs, Some e)
                              | Inr (most_expensive, max_price) \<Rightarrow>
                                  (case most_expensive of
                                     None \<Rightarrow> (counter, evs, Some AttributeError)
                                   | Some el \<Rightarrow>
                                       (case elem_click el of
                                          Some e \<Rightarrow> (counter, evs, Some e)
                                        | None \<Rightarrow>
                                            (let counter' = float_mul_pos counter 10
                                             in (counter',
                                                 evs @ [Buy (elem_id el), Print (CounterUpdated counter')],
                                                 None))))))
                   else (counter, evs, None))))"

section \<open>Predicates and inputs used in the statements\<close>

text \<open>
  A token made of decimal digits and commas, with at least one digit: an integer written
  with thousands separators.
\<close>

definition digits_with_separators :: "string \<Rightarrow> bool" where
  "digits_with_separators tok =
     (list_all (\<lambda>c. is_decimal_char c \<or> c = CHR '','') tok \<and> list_ex is_decimal_char tok)"

text \<open>A page that shows only the cookie counter, with the given text.\<close>

definition counter_page :: "string \<Rightarrow> page" where
  "counter_page t =
     \<lparr>big_cookie = Inl NoSuchElementException,
      cookies_count = Inr \<lparr>elem_id = 1, elem_text = Inr t, elem_click = None\<rparr>,
      enabled_products = Inr []\<rparr>"

text \<open>
  The price read for an option: the number \<open>find_most_expensive_product\<close> compares for
  it, \<open>None\<close> when its text cannot be read or its last line is not all digits.
\<close>

definition option_price :: "element \<Rightarrow> int option" where
  "option_price q =
     (case elem_text q of
        Inl _ \<Rightarrow> None
      | Inr t \<Rightarrow> (case price_of_text t of Inr (Some n) \<Rightarrow> Some n | _ \<Rightarrow> None))"

text \<open>
  The three parts of an outcome.
\<close>

definition bot_of :: "outcome \<Rightarrow> bot" where "bot_of r = fst r"

definition events_of :: "outcome \<Rightarrow> event list" where "events_of r = fst (snd r)"

definition raised :: "outcome \<Rightarrow> error option" where "raised r = snd (snd r)"

text \<open>
  A sequence of calls of \<open>_try_purchase\<close>, one page each, whatever each call returns or
  raises.
\<close>

definition ticks :: "bot \<Rightarrow> page list \<Rightarrow> bot" where
  "ticks b pages = foldl (\<lambda>b p. bot_of (try_purchase b p)) b pages"

text \<open>
  The threshold is at least its initial value 10.
\<close>

definition threshold_ok :: "bot \<Rightarrow> bool" where
  "threshold_ok b = num_le (PyInt 10) (purchase_threshold b)"

text \<open>
  The bots that the program can hold: the initial one, and any bot after a counted click
  (the first two statements of the loop body of \<open>run\<close>) or after a call of
  \<open>_try_purchase\<close>, whether the call returned or raised.  The bots after a loop body and
  after \<open>run\<close> are among them (\<open>reachable_run_body\<close>, \<open>reachable_run\<close>).
\<close>

inductive reachable :: "bot \<Rightarrow> bool" where
  reachable_init: "reachable init_bot"
| reachable_click: "reachable b \<Longrightarrow> reachable (b\<lparr>click_count := click_count b + 1\<rparr>)"
| reachable_try_purchase: "reachable b \<Longrightarrow> reachable (bot_of (try_purchase b p))"

text \<open>
  The condition of the \<open>while\<close> loop of \<open>run\<close> at a frame, and the loop bodies run one
  after the other up to the first exception.
\<close>

definition loop_condition :: "pynum \<Rightarrow> rat \<Rightarrow> frame \<Rightarrow> bool" where
  "loop_condition duration_seconds start_time f =
     num_less (PyFloat (float_sub (clock f) start_time)) duration_seconds"


text \<open>
  Concrete inputs.  A product whose text is a name and, on the last line, a price text;
  a page with the big cookie, the counter text and the enabled products; the three options
  \<open>A\<close>, \<open>B\<close>, \<open>C\<close> priced 100, 250 and 80.
\<close>

definition product :: "nat \<Rightarrow> string \<Rightarrow> string \<Rightarrow> element" where
  "product i name price_text =
     \<lparr>elem_id = i, elem_text = Inr (name @ CHR 0x0A # price_text), elem_click = None\<rparr>"

definition game_page :: "string \<Rightarrow> element list \<Rightarrow> page" where
  "game_page counter_text ps =
     \<lparr>big_cookie = Inr \<lparr>elem_id = 0, elem_text = Inr [], elem_click = None\<rparr>,
      cookies_count = Inr \<lparr>elem_id = 1, elem_text = Inr counter_text, elem_click = None\<rparr>,
      enabled_products = Inr ps\<rparr>"

definition spec_options :: "element list" where
  "spec_options = [product 10 ''A'' ''100'', product 11 ''B'' ''250'', product 12 ''C'' ''80'']"

text \<open>
  A product that vanishes before it is clicked, and frames showing it or nothing to buy.
\<close>

definition stale_product :: element where
  "stale_product = (product 10 ''Cursor'' ''15'')\<lparr>elem_click := Some StaleElementReferenceException\<rparr>"

definition stale_frame :: frame where
  "stale_frame = \<lparr>clock = 0, view = game_page ''15 cookies'' [stale_product]\<rparr>"


text \<open>
  The decimal texts of \<open>10^n\<close> and \<open>2 * 10^n\<close>.
\<close>

definition one_and_zeros :: "nat \<Rightarrow> string" where
  "one_and_zeros n = CHR ''1'' # replicate n (CHR ''0'')"

definition two_and_zeros :: "nat \<Rightarrow> string" where
  "two_and_zeros n = CHR ''2'' # replicate n (CHR ''0'')"

text \<open>
  The initial value of \<open>counter\<close> in the first script: the float literal \<open>1.6\<close>.
\<close>

definition legacy_counter :: pyfloat where
  "legacy_counter = round_double (16 / 10)"


section \<open>Currency parsing\<close>

lemmas char_class_defs = isspace_char_def is_decimal_char_def isdigit_char_def ord_def

lemma decimal_not_space: "is_decimal_char c \<Longrightarrow> \<not> isspace_char c"
  by (auto simp: is_decimal_char_def isspace_char_def Let_def)

lemma comma_not_space: "\<not> isspace_char (CHR '','')"
  by (simp add: isspace_char_def ord_def)

lemma comma_not_decimal: "\<not> is_decimal_char (CHR '','')"
  by (simp add: is_decimal_char_def ord_def)

lemma split_whitespace_word:
  "\<forall>c\<in>set tok. \<not> isspace_char c \<Longrightarrow>
   split_whitespace cur (tok @ rest) = split_whitespace (cur @ tok) rest"
  by (induction tok arbitrary: cur) auto

lemma py_split_first_token:
  assumes "tok \<noteq> []" and "\<forall>c\<in>set tok. \<not> isspace_char c"
    and "rest = [] \<or> isspace_char (hd rest)"
  shows "item_first (py_split (tok @ rest)) = Inr tok"
proof -
  have "py_split (tok @ rest) = split_whitespace tok rest"
    using split_whitespace_word [OF assms(2), of "[]" rest] by (simp add: py_split_def)
  moreover have "\<exists>ws. split_whitespace tok rest = tok # ws"
    using assms(1,3) by (cases rest) auto
  ultimately show ?thesis by (auto simp: item_first_def)
qed

lemma dropWhile_none: "\<forall>c\<in>set s. \<not> P c \<Longrightarrow> dropWhile P s = s"
  by (cases s) auto

lemma valid_digits_all_decimal:
  "ds \<noteq> [] \<Longrightarrow> \<forall>c\<in>set ds. is_decimal_char c \<Longrightarrow> valid_digits ds"
proof (induction ds rule: valid_digits.induct)
  case (3 c d cs)
  have "d \<noteq> CHR ''_''" using 3(4) by (auto simp: is_decimal_char_def ord_def)
  with 3 show ?case by simp
qed simp_all

lemma py_int_decimal:
  assumes "ds \<noteq> []" and "\<forall>c\<in>set ds. is_decimal_char c"
  shows "py_int ds = Inr (decimal_value ds)"
proof -
  have ns: "\<forall>c\<in>set ds. \<not> isspace_char c" using assms(2) decimal_not_space by blast
  have "strip ds = ds"
    using ns by (simp add: strip_def dropWhile_none)
  moreover have "hd ds \<noteq> CHR ''-''" "hd ds \<noteq> CHR ''+''"
    using assms by (cases ds; auto simp: is_decimal_char_def ord_def)+
  moreover have "filter is_decimal_char ds = ds" using assms(2) by simp
  ultimately show ?thesis
    using valid_digits_all_decimal [OF assms] by (simp add: py_int_def)
qed

lemma replace_commas_digits:
  "list_all (\<lambda>c. is_decimal_char c \<or> c = CHR '','') tok \<Longrightarrow>
   replace_commas tok = filter is_decimal_char tok"
  unfolding replace_commas_def
  by (induction tok) (auto simp: comma_not_decimal)

lemma cookie_count_of_text_wellformed:
  assumes "digits_with_separators tok" and "rest = [] \<or> isspace_char (hd rest)"
  shows "cookie_count_of_text (tok @ rest) = Inr (decimal_value (filter is_decimal_char tok))"
proof -
  have all: "list_all (\<lambda>c. is_decimal_char c \<or> c = CHR '','') tok"
    and ex: "list_ex is_decimal_char tok"
    using assms(1) by (simp_all add: digits_with_separators_def)
  have ne: "tok \<noteq> []" using ex by auto
  have ns: "\<forall>c\<in>set tok. \<not> isspace_char c"
    using all decimal_not_space comma_not_space by (auto simp: list_all_iff)
  have first: "item_first (py_split (tok @ rest)) = Inr tok"
    by (rule py_split_first_token [OF ne ns assms(2)])
  have ds: "filter is_decimal_char tok \<noteq> []"
    using ex by (auto simp: list_ex_iff filter_empty_conv)
  have "py_int (filter is_decimal_char tok) = Inr (decimal_value (filter is_decimal_char tok))"
    by (rule py_int_decimal [OF ds]) simp
  then show ?thesis
    by (simp add: cookie_count_of_text_def first replace_commas_digits [OF all])
qed

lemma py_int_error: "py_int s = Inl e \<Longrightarrow> e = ValueError"
  by (auto simp: py_int_def Let_def split: if_splits)

lemma cookie_count_of_text_error:
  "cookie_count_of_text t = Inl e \<Longrightarrow> e = ValueError \<or> e = IndexError"
  by (auto simp: cookie_count_of_text_def item_first_def dest: py_int_error split: list.splits sum.splits)



lemma valid_digits_chars: "valid_digits s \<Longrightarrow> \<forall>c\<in>set s. is_decimal_char c \<or> c = CHR ''_''"
  by (induction s rule: valid_digits.induct) (auto split: if_splits)

lemma dropWhile_keeps: "c \<in> set xs \<Longrightarrow> \<not> P c \<Longrightarrow> c \<in> set (dropWhile P xs)"
  by (induction xs) auto

lemma strip_keeps: "c \<in> set s \<Longrightarrow> \<not> isspace_char c \<Longrightarrow> c \<in> set (strip s)"
  by (simp add: strip_def dropWhile_keeps)

text \<open>
  A token with a character that is neither a digit, a sign, an underscore nor whitespace
  (a letter, a point) is not accepted by \<open>int()\<close>.
\<close>

lemma py_int_bad_char:
  assumes "c \<in> set s" and "\<not> is_decimal_char c" and "\<not> isspace_char c"
    and "c \<noteq> CHR ''_''" and "c \<noteq> CHR ''+''" and "c \<noteq> CHR ''-''"
  shows "py_int s = Inl ValueError"
proof -
  let ?t = "strip s"
  let ?body = "if ?t \<noteq> [] \<and> (hd ?t = CHR ''-'' \<or> hd ?t = CHR ''+'') then tl ?t else ?t"
  have ct: "c \<in> set ?t" by (rule strip_keeps [OF assms(1,3)])
  then have "c \<in> set ?body"
    using assms(5,6) by (cases ?t) auto
  with valid_digits_chars [of ?body] assms(2,4) have "\<not> valid_digits ?body" by blast
  then show ?thesis by (simp add: py_int_def Let_def)
qed

section \<open>The loop over the products\<close>

lemma price_of_text_error:
  "price_of_text t = Inl e \<Longrightarrow> e = ValueError \<or> e = IndexError"
  by (auto simp: price_of_text_def item_last_def Let_def dest: py_int_error
           split: if_splits sum.splits)

lemma option_price_unreadable: "elem_text q = Inl e \<Longrightarrow> option_price q = None"
  by (simp add: option_price_def)

lemma find_most_expensive_loop_step:
  "find_most_expensive_loop (q # rest) mp me =
     (case elem_text q of
        Inl e \<Rightarrow>
          if e = ValueError \<or> e = IndexError then find_most_expensive_loop rest mp me else Inl e
      | Inr t \<Rightarrow>
          (case option_price q of
             None \<Rightarrow> find_most_expensive_loop rest mp me
           | Some n \<Rightarrow> if mp < n then find_most_expensive_loop rest n (Some q)
                       else find_most_expensive_loop rest mp me))"
  using price_of_text_error
  by (auto simp: option_price_def split: sum.splits option.splits)


lemma find_most_expensive_loop_result:
  "find_most_expensive_loop ps mp me = Inr (me', mp') \<Longrightarrow>
     (me' = me \<and> mp' = mp \<and> (\<forall>q\<in>set ps. \<forall>n. option_price q = Some n \<longrightarrow> n \<le> mp))
   \<or> (mp < mp' \<and> (\<forall>q\<in>set ps. \<forall>n. option_price q = Some n \<longrightarrow> n \<le> mp')
        \<and> (\<exists>q. me' = Some q \<and> find (\<lambda>q. option_price q = Some mp') ps = Some q))"
proof (induction ps arbitrary: mp me)
  case Nil
  then show ?case by simp
next
  case (Cons q rest)
  note step = find_most_expensive_loop_step [of q rest mp me]
  show ?case
  proof (cases "option_price q")
    case None
    with Cons.prems have "find_most_expensive_loop rest mp me = Inr (me', mp')"
      unfolding step by (simp split: sum.splits if_splits)
    from Cons.IH [OF this] None show ?thesis by auto
  next
    case (Some n)
    then obtain t where t: "elem_text q = Inr t"
      by (cases "elem_text q") (simp_all add: option_price_unreadable)
    show ?thesis
    proof (cases "mp < n")
      case True
      with Cons.prems t Some have "find_most_expensive_loop rest n (Some q) = Inr (me', mp')"
        unfolding step by simp
      from Cons.IH [OF this] Some True show ?thesis by auto
    next
      case False
      with Cons.prems t Some have "find_most_expensive_loop rest mp me = Inr (me', mp')"
        unfolding step by simp
      from Cons.IH [OF this] Some False show ?thesis by auto
    qed
  qed
qed

lemma find_Some_mem: "find P xs = Some x \<Longrightarrow> x \<in> set xs \<and> P x"
  by (auto simp: find_Some_iff)

lemma find_most_expensive_product_result:
  assumes "find_most_expensive_product ps = Inr (me, price)"
  shows "(me = None \<and> price = 0 \<and> (\<forall>q\<in>set ps. \<forall>n. option_price q = Some n \<longrightarrow> n \<le> 0))
       \<or> (0 < price \<and> (\<forall>q\<in>set ps. \<forall>n. option_price q = Some n \<longrightarrow> n \<le> price)
            \<and> (\<exists>q. me = Some q \<and> find (\<lambda>q. option_price q = Some price) ps = Some q))"
  using find_most_expensive_loop_result [of ps 0 None me price] assms
  by (simp add: find_most_expensive_product_def)

lemma find_most_expensive_product_Nil: "find_most_expensive_product [] = Inr (None, 0)"
  by (simp add: find_most_expensive_product_def)

lemma find_most_expensive_loop_error:
  "find_most_expensive_loop ps mp me = Inl e \<Longrightarrow> \<exists>q\<in>set ps. elem_text q = Inl e"
proof (induction ps arbitrary: mp me)
  case Nil
  then show ?case by simp
next
  case (Cons q rest)
  from Cons.prems have "elem_text q = Inl e \<or> (\<exists>mp' me'. find_most_expensive_loop rest mp' me' = Inl e)"
    unfolding find_most_expensive_loop_step
    by (auto split: sum.splits option.splits if_splits)
  with Cons.IH show ?case by auto
qed

subsection \<open>Texts that parse\<close>

lemma decimal_value_snoc: "decimal_value (ds @ [c]) = 10 * decimal_value ds + (int (ord c) - 48)"
  by (simp add: decimal_value_def)

lemma decimal_value_zeros:
  "decimal_value (ds @ replicate n (CHR ''0'')) = decimal_value ds * 10 ^ n"
proof (induction n)
  case 0
  show ?case by simp
next
  case (Suc n)
  have "ds @ replicate (Suc n) (CHR ''0'') = (ds @ replicate n (CHR ''0'')) @ [CHR ''0'']"
    by (simp add: replicate_append_same)
  then show ?case using Suc by (simp only: decimal_value_snoc) (simp add: ord_def)
qed

lemma split_sep_no_sep: "sep \<notin> set s \<Longrightarrow> split_sep sep cur s = [cur @ s]"
  by (induction s arbitrary: cur) auto

lemma split_sep_nonempty: "split_sep sep cur s \<noteq> []"
  by (induction s arbitrary: cur) auto

lemma split_sep_last:
  "sep \<notin> set s \<Longrightarrow> last (split_sep sep cur (pre @ sep # s)) = s"
  by (induction pre arbitrary: cur) (auto simp: split_sep_no_sep split_sep_nonempty)

lemma decimal_is_digit: "is_decimal_char c \<Longrightarrow> isdigit_char c"
  by (simp add: is_decimal_char_def isdigit_char_def Let_def)

text \<open>A product text whose last line is a plain decimal number has that number as price.\<close>

lemma price_of_text_digits:
  assumes "ds \<noteq> []" and "\<forall>c\<in>set ds. is_decimal_char c"
  shows "price_of_text (name @ CHR 0x0A # ds) = Inr (Some (decimal_value ds))"
proof -
  have nn: "CHR 0x0A \<notin> set ds"
    using assms(2) by (auto simp: is_decimal_char_def ord_def)
  have nc: "replace_commas ds = ds"
    using assms(2) comma_not_decimal by (auto simp: replace_commas_def filter_id_conv)
  have dg: "py_isdigit ds"
    using assms decimal_is_digit by (auto simp: py_isdigit_def list_all_iff)
  have "item_last (py_split_on (CHR 0x0A) (name @ CHR 0x0A # ds)) = Inr ds"
    by (simp add: item_last_def py_split_on_def split_sep_nonempty split_sep_last [OF nn])
  then show ?thesis
    using nc dg py_int_decimal [OF assms] by (simp add: price_of_text_def)
qed

lemma digit_zeros:
  assumes "is_decimal_char c"
  shows "digits_with_separators (c # replicate n (CHR ''0''))"
    and "\<forall>x\<in>set (c # replicate n (CHR ''0'')). is_decimal_char x"
    and "filter is_decimal_char (c # replicate n (CHR ''0'')) = c # replicate n (CHR ''0'')"
    and "decimal_value (c # replicate n (CHR ''0'')) = (int (ord c) - 48) * 10 ^ n"
proof -
  have z: "is_decimal_char (CHR ''0'')" by (simp add: is_decimal_char_def ord_def)
  show all: "\<forall>x\<in>set (c # replicate n (CHR ''0'')). is_decimal_char x"
    using assms z by auto
  then show "filter is_decimal_char (c # replicate n (CHR ''0'')) = c # replicate n (CHR ''0'')"
    by (simp only: filter_id_conv)
  show "digits_with_separators (c # replicate n (CHR ''0''))"
    using all assms by (auto simp: digits_with_separators_def list_all_iff)
  have "decimal_value ([c] @ replicate n (CHR ''0'')) = decimal_value [c] * 10 ^ n"
    by (rule decimal_value_zeros)
  then show "decimal_value (c # replicate n (CHR ''0'')) = (int (ord c) - 48) * 10 ^ n"
    by (simp add: decimal_value_def)
qed

lemma option_price_product:
  assumes "ds \<noteq> []" and "\<forall>c\<in>set ds. is_decimal_char c"
  shows "option_price (product i name ds) = Some (decimal_value ds)"
  using price_of_text_digits [OF assms, of name] by (simp add: option_price_def product_def)

lemma find_single_product:
  assumes "ds \<noteq> []" and "\<forall>c\<in>set ds. is_decimal_char c" and "0 < decimal_value ds"
  shows "find_most_expensive_product [product i name ds]
         = Inr (Some (product i name ds), decimal_value ds)"
  using price_of_text_digits [OF assms(1,2), of name] assms(3)
  by (simp add: find_most_expensive_product_def product_def)

lemma one_is_decimal: "is_decimal_char (CHR ''1'')" "int (ord (CHR ''1'')) - 48 = 1"
  and two_is_decimal: "is_decimal_char (CHR ''2'')" "int (ord (CHR ''2'')) - 48 = 2"
  by (simp_all add: is_decimal_char_def ord_def)

section \<open>One call of \<open>_try_purchase\<close>\<close>

lemma get_cookie_count_no_buys: "buys (fst (get_cookie_count p)) = []"
  by (auto simp: get_cookie_count_def buys_def split: sum.splits)

lemma purchase_upgrade_buys:
  "purchase_upgrade me = (evs, r) \<Longrightarrow>
   (evs = [] \<and> (r = Inr False \<or> (\<exists>e. r = Inl e)))
   \<or> (\<exists>q. me = Some q \<and> elem_click q = None \<and> evs = [Buy (elem_id q)] \<and> r = Inr True)"
  by (auto simp: purchase_upgrade_def split: option.splits)

lemma buys_append: "buys (xs @ ys) = buys xs @ buys ys"
  by (simp add: buys_def)

lemma buys_simps [simp]:
  "buys [] = []" "buys (Buy i # evs) = i # buys evs"
  "buys (Print m # evs) = buys evs" "buys (CookieClick # evs) = buys evs"
  by (simp_all add: buys_def)

lemmas outcome_defs = bot_of_def events_of_def raised_def

lemma get_cookie_count_buys: "get_cookie_count p = (ev, r) \<Longrightarrow> buys ev = []"
  using get_cookie_count_no_buys [of p] by simp

text \<open>What \<open>try_purchase\<close> does once the loop over the products has returned.\<close>

lemma try_purchase_found:
  assumes "get_cookie_count p = (ev, Inr cookies)"
    and "num_le (purchase_threshold b) (PyInt cookies)"
    and "enabled_products p = Inr ps" and "ps \<noteq> []"
    and "find_most_expensive_product ps = Inr (Some q, price)"
    and "price \<le> cookies"
  shows "elem_click q = None \<Longrightarrow>
           buys (events_of (try_purchase b p)) = [elem_id q]
           \<and> purchase_count (bot_of (try_purchase b p)) = purchase_count b + 1"
    and "elem_click q = Some e \<Longrightarrow> try_purchase b p = (b, ev, Some e)"
  using assms get_cookie_count_buys [OF assms(1)]
  by (auto simp: try_purchase_def purchase_upgrade_def outcome_defs buys_append Let_def
           split: sum.splits)


lemma try_purchase_buy_cases:
  "buys (events_of (try_purchase b p)) = []
   \<or> (\<exists>ev cookies ps q price.
         get_cookie_count p = (ev, Inr cookies) \<and> num_le (purchase_threshold b) (PyInt cookies)
         \<and> enabled_products p = Inr ps \<and> ps \<noteq> []
         \<and> find_most_expensive_product ps = Inr (Some q, price) \<and> price \<le> cookies
         \<and> elem_click q = None \<and> buys (events_of (try_purchase b p)) = [elem_id q])"
proof (cases "get_cookie_count p")
  case (Pair ev r)
  note nb = get_cookie_count_buys [OF Pair]
  show ?thesis
  proof (cases r)
    case (Inl e)
    with Pair nb show ?thesis by (simp add: try_purchase_def outcome_defs)
  next
    case (Inr cookies)
    show ?thesis
    proof (cases "num_le (purchase_threshold b) (PyInt cookies)")
      case False
      with Pair Inr nb show ?thesis by (simp add: try_purchase_def outcome_defs)
    next
      case thr: True
      show ?thesis
      proof (cases "enabled_products p")
        case (Inl e)
        with Pair Inr nb show ?thesis by (simp add: try_purchase_def outcome_defs)
      next
        case ps: (Inr ps)
        show ?thesis
        proof (cases "find_most_expensive_product ps")
          case (Inl e)
          with Pair Inr ps nb show ?thesis by (simp add: try_purchase_def outcome_defs)
        next
          case fm: (Inr res)
          obtain me price where res: "res = (me, price)" by (cases res)
          show ?thesis
          proof (cases "ps \<noteq> [] \<and> me \<noteq> None \<and> price \<le> cookies \<and> elem_click (the me) = None")
            case True
            then obtain q where q: "me = Some q" by auto
            from try_purchase_found(1) [of p ev cookies b ps q price] Pair Inr thr ps fm res q True
            show ?thesis by auto
          next
            case False
            with Pair Inr ps fm res nb have "buys (events_of (try_purchase b p)) = []"
              by (auto simp: try_purchase_def outcome_defs purchase_upgrade_def split: option.splits)
            then show ?thesis ..
          qed
        qed
      qed
    qed
  qed
qed

lemma try_purchase_no_buy_unchanged:
  "buys (events_of (try_purchase b p)) = [] \<Longrightarrow> bot_of (try_purchase b p) = b"
  by (auto simp: try_purchase_def outcome_defs purchase_upgrade_def buys_append Let_def
           split: sum.splits prod.splits option.splits if_splits)

lemma try_purchase_below_threshold:
  assumes "get_cookie_count p = (ev, Inr cookies)"
    and "num_less (PyInt cookies) (purchase_threshold b)"
  shows "try_purchase b p = (b, ev, None)"
  using assms by (simp add: try_purchase_def num_le_def)

lemma try_purchase_all_unaffordable:
  assumes "snd (get_cookie_count p) = Inr cookies" and "enabled_products p = Inr ps"
    and "\<forall>q\<in>set ps. \<forall>n. option_price q = Some n \<longrightarrow> cookies < n"
  shows "buys (events_of (try_purchase b p)) = []"
proof -
  from try_purchase_buy_cases [of b p] show ?thesis
  proof
    assume "buys (events_of (try_purchase b p)) = []"
    then show ?thesis .
  next
    assume "\<exists>ev cookies ps q price.
         get_cookie_count p = (ev, Inr cookies) \<and> num_le (purchase_threshold b) (PyInt cookies)
         \<and> enabled_products p = Inr ps \<and> ps \<noteq> []
         \<and> find_most_expensive_product ps = Inr (Some q, price) \<and> price \<le> cookies
         \<and> elem_click q = None \<and> buys (events_of (try_purchase b p)) = [elem_id q]"
    then obtain ev q price where
      c: "get_cookie_count p = (ev, Inr cookies)"
      and f: "find_most_expensive_product ps = Inr (Some q, price)" and le: "price \<le> cookies"
      using assms(1,2) by auto
    from find_most_expensive_product_result [OF f]
    have "find (\<lambda>q. option_price q = Some price) ps = Some q" by auto
    then have "q \<in> set ps \<and> option_price q = Some price" by (rule find_Some_mem)
    with assms(3) have "cookies < price" by blast
    with le show ?thesis by simp
  qed
qed

lemma try_purchase_buy_affordable:
  assumes "buys (events_of (try_purchase b p)) \<noteq> []"
  shows "\<exists>ev cookies ps q price.
           get_cookie_count p = (ev, Inr cookies) \<and> enabled_products p = Inr ps
           \<and> q \<in> set ps \<and> option_price q = Some price \<and> price \<le> cookies
           \<and> num_le (purchase_threshold b) (PyInt cookies)
           \<and> buys (events_of (try_purchase b p)) = [elem_id q]"
proof -
  from try_purchase_buy_cases [of b p] assms obtain ev cookies ps q price where
    c: "get_cookie_count p = (ev, Inr cookies)" "num_le (purchase_threshold b) (PyInt cookies)"
      "enabled_products p = Inr ps"
    and f: "find_most_expensive_product ps = Inr (Some q, price)"
    and r: "price \<le> cookies" "buys (events_of (try_purchase b p)) = [elem_id q]"
    by auto
  from find_most_expensive_product_result [OF f]
  have "find (\<lambda>q. option_price q = Some price) ps = Some q" by auto
  then have "q \<in> set ps \<and> option_price q = Some price" by (rule find_Some_mem)
  with c r show ?thesis by blast
qed

subsection \<open>The concrete pages\<close>

lemmas parse_eval =
  get_cookie_count_def cookie_count_of_text_def item_first_def item_last_def py_split_def
  py_split_on_def py_int_def strip_def replace_commas_def py_isdigit_def decimal_value_def
  price_of_text_def option_price_def char_class_defs game_page_def product_def

lemmas num_eval = num_le_def num_less_def py_max_def

lemma count_digit_zeros:
  assumes "is_decimal_char c"
  shows "get_cookie_count (game_page (c # replicate n (CHR ''0'') @ '' cookies'') ps)
         = ([], Inr ((int (ord c) - 48) * 10 ^ n))"
proof -
  have "cookie_count_of_text ((c # replicate n (CHR ''0'')) @ '' cookies'')
        = Inr (decimal_value (filter is_decimal_char (c # replicate n (CHR ''0''))))"
    by (rule cookie_count_of_text_wellformed [OF digit_zeros(1) [OF assms]])
       (simp add: isspace_char_def ord_def)
  then have "cookie_count_of_text (c # replicate n (CHR ''0'') @ '' cookies'')
        = Inr ((int (ord c) - 48) * 10 ^ n)"
    by (simp only: digit_zeros(3,4) [OF assms] append_Cons)
  then show ?thesis
    by (simp add: get_cookie_count_def game_page_def del: replicate.simps)
qed



lemma spec_options_counts:
  "get_cookie_count (game_page ''300 cookies'' spec_options) = ([], Inr 300)"
  "get_cookie_count (game_page ''150 cookies'' spec_options) = ([], Inr 150)"
  "get_cookie_count (game_page ''5 cookies'' spec_options) = ([], Inr 5)"
  by (simp_all add: parse_eval)





lemma stale_page_facts:
  "get_cookie_count (game_page ''15 cookies'' [stale_product]) = ([], Inr 15)"
  "enabled_products (game_page ''15 cookies'' [stale_product]) = Inr [stale_product]"
  "find_most_expensive_product [stale_product] = Inr (Some stale_product, 15)"
  "elem_click stale_product = Some StaleElementReferenceException"
  "big_cookie (game_page ''15 cookies'' [stale_product])
     = Inr \<lparr>elem_id = 0, elem_text = Inr [], elem_click = None\<rparr>"
  by (simp_all add: parse_eval stale_product_def find_most_expensive_product_def)

subsection \<open>Below the threshold\<close>

text \<open>
  C6: when the cookie count read is strictly less than \<open>purchase_threshold\<close>,
  \<open>_try_purchase\<close> returns without an exception, issues no buy, and leaves the bot
  (threshold, purchase count, click count) exactly as it was.
\<close>

theorem below_threshold_no_action:
  assumes "get_cookie_count p = (ev, Inr cookies)"
    and "num_less (PyInt cookies) (purchase_threshold b)"
  shows "try_purchase b p = (b, ev, None) \<and> buys ev = []"
  using try_purchase_below_threshold [OF assms] get_cookie_count_buys [OF assms(1)]
  by simp

theorem below_threshold_no_action_witness:
  "try_purchase init_bot (game_page ''5 cookies'' spec_options) = (init_bot, [], None)"
proof -
  note c = spec_options_counts(3)
  have t: "num_less (PyInt 5) (purchase_threshold init_bot)"
    by (simp add: init_bot_def num_eval)
  from below_threshold_no_action [OF c t] show ?thesis by simp
qed

subsection \<open>Nothing affordable\<close>

text \<open>
  C7: when the list of enabled products is empty, and when every price read for a product
  exceeds the cookie count, \<open>_try_purchase\<close> issues no buy and leaves the bot, and so the
  threshold, unchanged; and no call issues more than one buy.
\<close>

theorem no_affordable_option_no_action:
  "(enabled_products p = Inr [] \<longrightarrow>
      bot_of (try_purchase b p) = b \<and> buys (events_of (try_purchase b p)) = [])
   \<and> (\<forall>ps cookies.
        snd (get_cookie_count p) = Inr cookies \<and> enabled_products p = Inr ps
        \<and> (\<forall>q\<in>set ps. \<forall>n. option_price q = Some n \<longrightarrow> cookies < n)
        \<longrightarrow> bot_of (try_purchase b p) = b \<and> buys (events_of (try_purchase b p)) = [])
   \<and> length (buys (events_of (try_purchase b p))) \<le> 1"
proof -
  note unchanged = try_purchase_no_buy_unchanged [of b p]
  have empty: "bot_of (try_purchase b p) = b \<and> buys (events_of (try_purchase b p)) = []"
    if "enabled_products p = Inr []"
  proof -
    from try_purchase_buy_cases [of b p] that
    have "buys (events_of (try_purchase b p)) = []" by auto
    with unchanged show ?thesis by simp
  qed
  have dear: "bot_of (try_purchase b p) = b \<and> buys (events_of (try_purchase b p)) = []"
    if "snd (get_cookie_count p) = Inr cookies" and "enabled_products p = Inr ps"
      and "\<forall>q\<in>set ps. \<forall>n. option_price q = Some n \<longrightarrow> cookies < n" for ps cookies
  proof -
    have "buys (events_of (try_purchase b p)) = []"
      by (rule try_purchase_all_unaffordable [OF that])
    with unchanged show ?thesis by simp
  qed
  have one: "length (buys (events_of (try_purchase b p))) \<le> 1"
    using try_purchase_buy_cases [of b p] by auto
  from empty dear one show ?thesis by blast
qed

theorem no_affordable_option_no_action_witness:
  "bot_of (try_purchase init_bot (game_page ''1,000 cookies'' [])) = init_bot
   \<and> buys (events_of (try_purchase init_bot (game_page ''1,000 cookies'' []))) = []
   \<and> bot_of (try_purchase init_bot (game_page ''50 cookies'' [product 10 ''A'' ''100''])) = init_bot
   \<and> buys (events_of (try_purchase init_bot (game_page ''50 cookies'' [product 10 ''A'' ''100'']))) = []"
proof -
  have e: "enabled_products (game_page ''1,000 cookies'' []) = Inr []"
    by (simp add: game_page_def)
  have h: "snd (get_cookie_count (game_page ''50 cookies'' [product 10 ''A'' ''100''])) = Inr 50
      \<and> enabled_products (game_page ''50 cookies'' [product 10 ''A'' ''100''])
          = Inr [product 10 ''A'' ''100'']
      \<and> (\<forall>q\<in>set [product 10 ''A'' ''100'']. \<forall>n. option_price q = Some n \<longrightarrow> 50 < n)"
    by (simp add: parse_eval)
  from no_affordable_option_no_action [of "game_page ''1,000 cookies'' []" init_bot] e
  have "bot_of (try_purchase init_bot (game_page ''1,000 cookies'' [])) = init_bot
   \<and> buys (events_of (try_purchase init_bot (game_page ''1,000 cookies'' []))) = []"
    by blast
  moreover
  from no_affordable_option_no_action [of "game_page ''50 cookies'' [product 10 ''A'' ''100'']" init_bot] h
  have "bot_of (try_purchase init_bot (game_page ''50 cookies'' [product 10 ''A'' ''100''])) = init_bot
   \<and> buys (events_of (try_purchase init_bot (game_page ''50 cookies'' [product 10 ''A'' ''100'']))) = []"
    by blast
  ultimately show ?thesis by simp
qed

subsection \<open>Which product is bought\<close>




section \<open>Rounding to binary64\<close>

lemma bitlen_unique: "2 ^ n \<le> x \<Longrightarrow> x < 2 ^ Suc n \<Longrightarrow> bitlen x = int (Suc n)"
proof (rule antisym)
  assume "x < 2 ^ Suc n"
  then show "bitlen x \<le> int (Suc n)"
    unfolding bitlen_le_iff_power by (simp del: of_nat_Suc)
next
  assume "2 ^ n \<le> x"
  then show "int (Suc n) \<le> bitlen x"
    unfolding bitlen_ge_iff_power by (simp del: of_nat_Suc)
qed

lemma of_int_le_pow2: "(x::int) \<le> 2 ^ n \<Longrightarrow> (of_int x :: rat) \<le> 2 ^ n"
  and pow2_le_of_int: "2 ^ n \<le> (x::int) \<Longrightarrow> (2::rat) ^ n \<le> of_int x"
  by (metis of_int_le_iff of_int_numeral of_int_power)+

lemma flog2_lower:
  assumes "1 \<le> q"
  shows "0 \<le> flog2 q" and "2 powi (flog2 q) \<le> q"
proof -
  have pos: "0 < \<lfloor>q\<rfloor>" using assms by simp
  from bitlen_bounds [OF pos] have b: "2 ^ nat (bitlen \<lfloor>q\<rfloor> - 1) \<le> \<lfloor>q\<rfloor>" ..
  have "bitlen \<lfloor>q\<rfloor> \<noteq> 0" using pos by (simp add: bitlen_eq_zero_iff)
  with bitlen_nonneg [of "\<lfloor>q\<rfloor>"] have ge: "1 \<le> bitlen \<lfloor>q\<rfloor>" by simp
  then show "0 \<le> flog2 q" using assms by (simp add: flog2_def)
  have "(2::rat) powi (flog2 q) = 2 ^ nat (bitlen \<lfloor>q\<rfloor> - 1)"
    using assms ge by (simp add: flog2_def power_int_def)
  also have "\<dots> = of_int (2 ^ nat (bitlen \<lfloor>q\<rfloor> - 1))" by simp
  also have "\<dots> \<le> of_int \<lfloor>q\<rfloor>" using b by (simp only: of_int_le_iff)
  also have "\<dots> \<le> q" by simp
  finally show "2 powi (flog2 q) \<le> q" .
qed

lemma flog2_bounds:
  assumes "0 < q"
  shows "2 powi (flog2 q) \<le> q" and "q < 2 powi (flog2 q + 1)"
proof -
  show "2 powi (flog2 q) \<le> q"
  proof (cases "1 \<le> q")
    case True
    then show ?thesis by (rule flog2_lower(2))
  next
    case False
    define c where "c = \<lceil>1 / q\<rceil>"
    have r1: "1 < 1 / q" using assms False by simp
    then have c2: "2 \<le> c" unfolding c_def by linarith
    then have pos: "0 < c - 1" by simp
    from bitlen_bounds [OF pos] have "c - 1 < 2 ^ nat (bitlen (c - 1))" ..
    then have "c \<le> 2 ^ nat (bitlen (c - 1))" by simp
    then have "(of_int c :: rat) \<le> 2 ^ nat (bitlen (c - 1))" by (rule of_int_le_pow2)
    moreover have "1 / q \<le> of_int c" unfolding c_def by linarith
    ultimately have "1 / q \<le> 2 ^ nat (bitlen (c - 1))" by linarith
    then have "1 / 2 ^ nat (bitlen (c - 1)) \<le> q"
      using assms by (simp add: field_simps)
    moreover have "(2::rat) powi (flog2 q) = 1 / 2 ^ nat (bitlen (c - 1))"
      using False bitlen_nonneg [of "c - 1"]
      by (simp add: flog2_def c_def power_int_def field_simps)
    ultimately show ?thesis by simp
  qed
  show "q < 2 powi (flog2 q + 1)"
  proof (cases "1 \<le> q")
    case True
    then have pos: "0 < \<lfloor>q\<rfloor>" by simp
    from bitlen_bounds [OF pos] have "\<lfloor>q\<rfloor> < 2 ^ nat (bitlen \<lfloor>q\<rfloor>)" ..
    then have "\<lfloor>q\<rfloor> + 1 \<le> 2 ^ nat (bitlen \<lfloor>q\<rfloor>)" by simp
    then have "(of_int (\<lfloor>q\<rfloor> + 1) :: rat) \<le> 2 ^ nat (bitlen \<lfloor>q\<rfloor>)"
      by (rule of_int_le_pow2)
    moreover have "q < of_int (\<lfloor>q\<rfloor> + 1)" by linarith
    ultimately have "q < 2 ^ nat (bitlen \<lfloor>q\<rfloor>)" by linarith
    moreover have "(2::rat) powi (flog2 q + 1) = 2 ^ nat (bitlen \<lfloor>q\<rfloor>)"
      using True bitlen_nonneg [of "\<lfloor>q\<rfloor>"] by (simp add: flog2_def power_int_def)
    ultimately show ?thesis by simp
  next
    case False
    define c where "c = \<lceil>1 / q\<rceil>"
    define k where "k = bitlen (c - 1)"
    have r1: "1 < 1 / q" using assms False by simp
    then have c2: "2 \<le> c" unfolding c_def by linarith
    then have pos: "0 < c - 1" by simp
    have "k \<noteq> 0" using pos by (simp add: k_def bitlen_eq_zero_iff)
    with bitlen_nonneg [of "c - 1"] have k1: "1 \<le> k" by (simp add: k_def)
    from bitlen_bounds [OF pos] have "2 ^ nat (k - 1) \<le> c - 1" unfolding k_def ..
    then have "(2::rat) ^ nat (k - 1) \<le> of_int (c - 1)" by (rule pow2_le_of_int)
    moreover have "of_int (c - 1) < 1 / q" unfolding c_def by linarith
    ultimately have "2 ^ nat (k - 1) < 1 / q" by linarith
    then have "q < 1 / 2 ^ nat (k - 1)" using assms by (simp add: field_simps)
    moreover have "(2::rat) powi (flog2 q + 1) = 1 / 2 ^ nat (k - 1)"
    proof -
      have "flog2 q + 1 = - (k - 1)" using False by (simp add: flog2_def c_def k_def)
      moreover have "(2::rat) powi (- (k - 1)) = 1 / 2 ^ nat (k - 1)"
        using k1 by (simp add: power_int_def field_simps)
      ultimately show ?thesis by simp
    qed
    ultimately show ?thesis by simp
  qed
qed

lemma round_half_even_nearest: "\<bar>of_int (round_half_even x) - x\<bar> \<le> 1 / 2"
proof -
  have "of_int \<lfloor>x\<rfloor> \<le> x" "x < of_int \<lfloor>x\<rfloor> + 1" by linarith+
  then show ?thesis by (auto simp: round_half_even_def Let_def abs_le_iff)
qed

text \<open>A finite result of \<open>round_double\<close> is within half a unit in the last place.\<close>

lemma round_double_error:
  assumes "round_double q = Fin v"
  shows "\<bar>v - q\<bar> \<le> 2 powi (max (flog2 \<bar>q\<bar>) (- 1022) - 52) / 2"
proof (cases "q = 0")
  case True
  with assms show ?thesis by (simp add: round_double_def)
next
  case False
  define u where "u = (2::rat) powi (max (flog2 \<bar>q\<bar>) (- 1022) - 52)"
  have u0: "0 < u" by (simp add: u_def)
  define m where "m = round_half_even (\<bar>q\<bar> / u)"
  have "\<bar>of_int m - \<bar>q\<bar> / u\<bar> \<le> 1 / 2" unfolding m_def by (rule round_half_even_nearest)
  then have "\<bar>of_int m - \<bar>q\<bar> / u\<bar> * u \<le> 1 / 2 * u" using u0 by (simp only: mult_le_cancel_right_pos)
  moreover have "\<bar>of_int m - \<bar>q\<bar> / u\<bar> * u = \<bar>of_int m * u - \<bar>q\<bar>\<bar>"
  proof -
    have "\<bar>of_int m - \<bar>q\<bar> / u\<bar> * u = \<bar>(of_int m - \<bar>q\<bar> / u) * u\<bar>"
      using u0 by (simp add: abs_mult)
    also have "(of_int m - \<bar>q\<bar> / u) * u = of_int m * u - \<bar>q\<bar>" using u0 by (simp add: field_simps)
    finally show ?thesis .
  qed
  ultimately have b: "\<bar>of_int m * u - \<bar>q\<bar>\<bar> \<le> u / 2" by simp
  from assms False have "v = (if 0 < q then of_int m * u else - (of_int m * u))"
    by (simp add: round_double_def Let_def u_def m_def split: if_splits)
  with b False have "\<bar>v - q\<bar> \<le> u / 2"
  proof (cases "0 < q")
    case True
    with b \<open>v = _\<close> show ?thesis by simp
  next
    case False
    with b \<open>v = _\<close> \<open>q \<noteq> 0\<close> have le: "\<bar>of_int m * u + q\<bar> \<le> u / 2" and v: "v = - (of_int m * u)"
      by simp_all
    have "v - q = - (of_int m * u + q)" using v by simp
    then have "\<bar>v - q\<bar> = \<bar>of_int m * u + q\<bar>" by (simp only: abs_minus_cancel)
    with le show ?thesis by simp
  qed
  then show ?thesis by (simp add: u_def)
qed

lemma round_half_even_ge: "of_int (round_half_even x) \<ge> (of_int \<lfloor>x\<rfloor> :: rat)"
  by (simp add: round_half_even_def Let_def)

lemma round_half_even_gt: "x - 1 < of_int (round_half_even x)"
proof -
  have "x - 1 < of_int \<lfloor>x\<rfloor>" by linarith
  with round_half_even_ge [of x] show ?thesis by linarith
qed

text \<open>For \<open>q \<ge> 1\<close>: the unit in the last place and the rounded magnitude.\<close>

lemma round_double_ge1:
  assumes "1 \<le> q"
  defines "u \<equiv> 2 powi (flog2 q - 52)"
  defines "v \<equiv> of_int (round_half_even (q / u)) * u"
  shows "round_double q = (if 2 powi 1024 \<le> v then PosInf else Fin v)"
    and "0 < u" and "u * 2 ^ 52 \<le> q" and "q - u < v" and "2 powi (flog2 q) \<le> v"
proof -
  have e: "0 \<le> flog2 q" "2 powi (flog2 q) \<le> q" using flog2_lower [OF assms(1)] by simp_all
  have q0: "0 < q" "q \<noteq> 0" "\<bar>q\<bar> = q" using assms(1) by simp_all
  have m: "max (flog2 q) (- 1022) = flog2 q" using e(1) by simp
  show "round_double q = (if 2 powi 1024 \<le> v then PosInf else Fin v)"
    using q0 by (simp add: round_double_def Let_def m u_def v_def)
  show u0: "0 < u" by (simp add: u_def)
  have up: "u * 2 ^ 52 = 2 powi (flog2 q)"
    by (simp add: u_def power_int_diff)
  with e(2) show "u * 2 ^ 52 \<le> q" by simp
  have "q / u - 1 < of_int (round_half_even (q / u))" by (rule round_half_even_gt)
  then have "(q / u - 1) * u < of_int (round_half_even (q / u)) * u"
    using u0 by (simp only: mult_less_cancel_right_pos)
  moreover have "(q / u - 1) * u = q - u" using u0 by (simp add: field_simps)
  ultimately show "q - u < v" by (simp only: v_def)
  have "(2::rat) ^ 52 = 2 powi (flog2 q) / u" using u0 up by (simp add: field_simps)
  also have "\<dots> \<le> q / u" using e(2) u0 by (simp add: divide_right_mono)
  finally have "(of_int (2 ^ 52) :: rat) \<le> q / u" by simp
  then have "2 ^ 52 \<le> \<lfloor>q / u\<rfloor>" by (simp only: le_floor_iff)
  then have "(2::rat) ^ 52 \<le> of_int \<lfloor>q / u\<rfloor>"
    by (metis of_int_le_iff of_int_numeral of_int_power)
  also have "\<dots> \<le> of_int (round_half_even (q / u))" by (rule round_half_even_ge)
  finally have "2 ^ 52 * u \<le> of_int (round_half_even (q / u)) * u"
    using u0 by (simp only: mult_le_cancel_right_pos)
  then show "2 powi (flog2 q) \<le> v" using up by (simp add: v_def mult.commute)
qed

lemma round_double_lower:
  assumes "1 \<le> q"
  shows "round_double q = PosInf \<or> (\<exists>v. round_double q = Fin v \<and> q * (1 - 1 / 2 ^ 52) < v)"
proof -
  define u where "u = (2::rat) powi (flog2 q - 52)"
  define v where "v = of_int (round_half_even (q / u)) * u"
  note r = round_double_ge1 [OF assms, folded u_def v_def]
  have "u \<le> q / 2 ^ 52" using r(3) by (simp add: field_simps)
  with r(4) have "q * (1 - 1 / 2 ^ 52) < v" by (simp add: field_simps)
  with r(1) show ?thesis by auto
qed

lemma round_double_overflow:
  assumes "2 ^ 1024 \<le> q"
  shows "round_double q = PosInf"
proof -
  have q1: "1 \<le> q" using assms by simp
  define u where "u = (2::rat) powi (flog2 q - 52)"
  define v where "v = of_int (round_half_even (q / u)) * u"
  note r = round_double_ge1 [OF q1, folded u_def v_def]
  have pos: "0 < \<lfloor>q\<rfloor>" using q1 by simp
  have "(of_int (2 ^ 1024) :: rat) \<le> q" using assms by simp
  then have "2 ^ 1024 \<le> \<lfloor>q\<rfloor>" by (simp only: le_floor_iff)
  then have "1025 \<le> bitlen \<lfloor>q\<rfloor>" by (simp add: bitlen_ge_iff_power)
  then have "1024 \<le> flog2 q" using q1 by (simp add: flog2_def)
  then have "(2::rat) powi 1024 \<le> 2 powi (flog2 q)"
    by (intro power_int_increasing) simp_all
  with r(5) have "2 powi 1024 \<le> v" by simp
  with r(1) show ?thesis by simp
qed


lemma round_double_eval:
  assumes "2 ^ n \<le> \<lfloor>q\<rfloor>" and "\<lfloor>q\<rfloor> < 2 ^ Suc n"
  shows "round_double q =
           (let u = 2 powi (int n - 52); v = of_int (round_half_even (q / u)) * u
            in if 2 powi 1024 \<le> v then PosInf else Fin v)"
proof -
  have "(1::int) \<le> 2 ^ n" by simp
  with assms(1) have "1 \<le> \<lfloor>q\<rfloor>" by linarith
  then have q1: "1 \<le> q" by (simp add: le_floor_iff)
  have "flog2 q = int n"
    using q1 bitlen_unique [OF assms] by (simp add: flog2_def)
  with round_double_ge1(1) [OF q1] show ?thesis by (simp add: Let_def)
qed

lemma floor_numeral_div:
  "\<lfloor>numeral a / numeral b :: rat\<rfloor> = numeral a div numeral b"
  using floor_divide_of_int_eq [of "numeral a" "numeral b", where ?'a = rat] by simp

lemmas round_eval = round_half_even_def Let_def power_int_minus floor_numeral_div

lemma round_double_10: "round_double 10 = Fin 10"
  by (simp add: round_double_eval [of 3] round_eval)

lemma round_double_15: "round_double 15 = Fin 15"
  by (simp add: round_double_eval [of 3] round_eval)


lemma float_sub_same: "float_sub t t = Fin 0"
  by (simp add: float_sub_def round_double_def)

lemma mul_10_float: "num_mul_float (PyInt 10) (3 / 2) = Inr (Fin 15)"
  by (simp add: num_mul_float_def float_of_int_def round_double_10 float_mul_pos_def round_double_15)

lemma legacy_counter_value: "legacy_counter = Fin (3602879701896397 / 2251799813685248)"
  by (simp add: legacy_counter_def round_double_eval [of 0] round_eval)

lemma legacy_counter_times_10: "float_mul_pos legacy_counter 10 = Fin 16"
  by (simp add: legacy_counter_value float_mul_pos_def round_double_eval [of 4] round_eval)

subsection \<open>The order on numbers\<close>

lemma float_less_irrefl [simp]: "\<not> float_less a a"
  by (cases a) simp_all

lemma float_less_trans: "float_less a b \<Longrightarrow> float_less b c \<Longrightarrow> float_less a c"
  by (cases a; cases b; cases c) simp_all

lemma float_less_le_trans: "float_less a b \<Longrightarrow> \<not> float_less c b \<Longrightarrow> float_less a c"
  by (cases a; cases b; cases c) simp_all

lemma float_le_less_trans: "\<not> float_less b a \<Longrightarrow> float_less b c \<Longrightarrow> float_less a c"
  by (cases a; cases b; cases c) simp_all

lemma float_le_trans: "\<not> float_less b a \<Longrightarrow> \<not> float_less c b \<Longrightarrow> \<not> float_less c a"
  by (cases a; cases b; cases c) simp_all

lemma num_le_refl [simp]: "num_le a a"
  by (simp add: num_le_def num_less_def)

lemma num_le_trans: "num_le a b \<Longrightarrow> num_le b c \<Longrightarrow> num_le a c"
  unfolding num_le_def num_less_def by (rule float_le_trans)

lemma num_less_imp_le: "num_less a b \<Longrightarrow> num_le a b"
  unfolding num_le_def num_less_def by (cases "exact a"; cases "exact b") simp_all

lemma num_less_le_trans: "num_less a b \<Longrightarrow> num_le b c \<Longrightarrow> num_less a c"
  unfolding num_le_def num_less_def by (rule float_less_le_trans)

lemma num_le_less_trans: "num_le a b \<Longrightarrow> num_less b c \<Longrightarrow> num_less a c"
  unfolding num_le_def num_less_def by (rule float_le_less_trans)

lemma py_max_ge: "num_le a (py_max a b)" "num_le b (py_max a b)"
  by (simp_all add: py_max_def num_less_imp_le) (simp add: num_le_def)

subsection \<open>Multiplying by 1.5\<close>

text \<open>\<open>x * 1.5\<close> is greater than \<open>x\<close> for a float \<open>x \<ge> 1\<close>.\<close>

lemma float_mul_grows:
  assumes "1 \<le> x"
  shows "float_less (Fin x) (float_mul_pos (Fin x) (3 / 2))"
proof -
  have "1 \<le> x * (3 / 2)" using assms by simp
  from round_double_lower [OF this]
  show ?thesis
  proof
    assume "round_double (x * (3 / 2)) = PosInf"
    then show ?thesis by (simp add: float_mul_pos_def)
  next
    assume "\<exists>v. round_double (x * (3 / 2)) = Fin v \<and> x * (3 / 2) * (1 - 1 / 2 ^ 52) < v"
    then obtain v where v: "round_double (x * (3 / 2)) = Fin v"
      and b: "x * (3 / 2) * (1 - 1 / 2 ^ 52) < v" by blast
    have "x \<le> x * (3 / 2) * (1 - 1 / 2 ^ 52)" using assms by simp
    with b have "x < v" by simp
    with v show ?thesis by (simp add: float_mul_pos_def)
  qed
qed

text \<open>\<open>float(n)\<close> is at least 1 and more than \<open>3/4 n\<close> for an \<open>int\<close> \<open>n \<ge> 1\<close>.\<close>

lemma float_of_int_lower:
  assumes "1 \<le> n" and "float_of_int n = Inr y"
  shows "\<exists>v. y = Fin v \<and> 1 \<le> v \<and> of_int n * (3 / 4) < v"
proof -
  have q1: "(1::rat) \<le> of_int n" using assms(1) by simp
  define u where "u = (2::rat) powi (flog2 (of_int n) - 52)"
  define v where "v = of_int (round_half_even (of_int n / u)) * u"
  note r = round_double_ge1 [OF q1, folded u_def v_def]
  from assms(2) r(1) have y: "y = Fin v"
    by (auto simp: float_of_int_def split: if_splits)
  have "(1::rat) \<le> 2 powi (flog2 (of_int n))"
    using flog2_lower(1) [OF q1] by (simp add: one_le_power_int)
  with r(5) have "1 \<le> v" by simp
  moreover have "u \<le> of_int n / 2 ^ 52" using r(3) by (simp add: field_simps)
  with r(4) have "of_int n * (1 - 1 / 2 ^ 52) < v" by (simp add: field_simps)
  then have "of_int n * (3 / 4) < v" using q1 by simp
  ultimately show ?thesis using y by simp
qed

text \<open>The multiplication in the threshold update: the product exceeds a threshold \<open>\<ge> 2\<close>.\<close>

lemma num_mul_float_grows:
  assumes "num_le (PyInt 2) t" and "num_mul_float t (3 / 2) = Inr x" and "exact t \<noteq> PosInf"
  shows "num_less t (PyFloat x)"
proof (cases t)
  case (PyInt n)
  with assms(1) have n: "2 \<le> n" by (simp add: num_le_def num_less_def)
  from assms(2) PyInt obtain y where y: "float_of_int n = Inr y" and x: "x = float_mul_pos y (3 / 2)"
    by (auto simp: num_mul_float_def split: sum.splits)
  from n float_of_int_lower [OF _ y] obtain v where v: "y = Fin v" "1 \<le> v" "of_int n * (3 / 4) < v"
    by auto
  have g: "float_less (Fin v) (float_mul_pos (Fin v) (3 / 2))" by (rule float_mul_grows [OF v(2)])
  have "float_less (Fin (of_int n)) x"
  proof (cases "float_mul_pos (Fin v) (3 / 2)")
    case (Fin w)
    have "1 \<le> v * (3 / 2)" using v(2) by simp
    from round_double_lower [OF this] Fin
    have "v * (3 / 2) * (1 - 1 / 2 ^ 52) < w" by (auto simp: float_mul_pos_def)
    moreover have "of_int n * (3 / 4) * (3 / 2) * (1 - 1 / 2 ^ 52) \<le> v * (3 / 2) * (1 - 1 / 2 ^ 52)"
      using v(3) by simp
    moreover have "(of_int n :: rat) \<le> of_int n * (3 / 4) * (3 / 2) * (1 - 1 / 2 ^ 52)"
      using n by simp
    ultimately have "of_int n < w" by linarith
    with Fin x v(1) show ?thesis by simp
  next
    case PosInf
    with x v(1) show ?thesis by simp
  next
    case NegInf
    with g show ?thesis by simp
  qed
  with PyInt show ?thesis by (simp add: num_less_def)
next
  case (PyFloat f)
  show ?thesis
  proof (cases f)
    case (Fin v)
    with PyFloat assms(1) have "1 \<le> v" by (simp add: num_le_def num_less_def)
    from float_mul_grows [OF this] assms(2) PyFloat Fin show ?thesis
      by (simp add: num_mul_float_def num_less_def)
  next
    case PosInf
    with PyFloat assms(3) show ?thesis by simp
  next
    case NegInf
    with PyFloat assms(1) show ?thesis by (simp add: num_le_def num_less_def)
  qed
qed

lemma threshold_update_grows:
  assumes "num_le t (PyInt cookies)" and "1 \<le> price"
    and "num_mul_float t (3 / 2) = Inr x"
  shows "num_less t (py_max (PyInt (price * 2)) (PyFloat x))"
proof (cases "num_le (PyInt 2) t")
  case True
  have "exact t \<noteq> PosInf" using assms(1) by (auto simp: num_le_def num_less_def)
  from num_mul_float_grows [OF True assms(3) this] py_max_ge(2)
  show ?thesis by (rule num_less_le_trans)
next
  case False
  then have "num_less t (PyInt 2)" by (simp add: num_le_def)
  moreover have "num_le (PyInt 2) (PyInt (price * 2))"
    using assms(2) by (simp add: num_le_def num_less_def)
  ultimately have "num_less t (PyInt (price * 2))" by (rule num_less_le_trans)
  from this py_max_ge(1) show ?thesis by (rule num_less_le_trans)
qed

lemma num_mul_float_error:
  "num_mul_float t c = Inl e \<Longrightarrow> e = OverflowError \<and> (\<exists>n. t = PyInt n)"
  by (auto simp: num_mul_float_def float_of_int_def split: pynum.splits sum.splits pyfloat.splits)

section \<open>The threshold\<close>

lemma try_purchase_bought:
  assumes "get_cookie_count p = (ev, Inr cookies)"
    and "num_le (purchase_threshold b) (PyInt cookies)"
    and "enabled_products p = Inr ps" and "ps \<noteq> []"
    and "find_most_expensive_product ps = Inr (Some q, price)"
    and "price \<le> cookies" and "elem_click q = None"
  shows "try_purchase b p =
           (case num_mul_float (purchase_threshold b) (3 / 2) of
              Inl e \<Rightarrow> (b\<lparr>purchase_count := purchase_count b + 1\<rparr>, ev @ [Buy (elem_id q)], Some e)
            | Inr x \<Rightarrow>
                (b\<lparr>purchase_count := purchase_count b + 1,
                   purchase_threshold := py_max (PyInt (price * 2)) (PyFloat x)\<rparr>,
                 ev @ [Buy (elem_id q), Print (Purchased price (purchase_count b + 1))], None))"
  using assms
  by (simp add: try_purchase_def purchase_upgrade_def Let_def split: sum.splits)

lemma try_purchase_threshold:
  shows "num_le (purchase_threshold b) (purchase_threshold (bot_of (try_purchase b p)))"
    and "buys (events_of (try_purchase b p)) \<noteq> [] \<Longrightarrow> raised (try_purchase b p) = None \<Longrightarrow>
         num_less (purchase_threshold b) (purchase_threshold (bot_of (try_purchase b p)))"
proof -
  have "buys (events_of (try_purchase b p)) = [] \<and> bot_of (try_purchase b p) = b
      \<or> buys (events_of (try_purchase b p)) \<noteq> []
         \<and> (raised (try_purchase b p) \<noteq> None
              \<and> purchase_threshold (bot_of (try_purchase b p)) = purchase_threshold b
            \<or> raised (try_purchase b p) = None
              \<and> num_less (purchase_threshold b) (purchase_threshold (bot_of (try_purchase b p))))"
  proof (cases "buys (events_of (try_purchase b p)) = []")
    case True
    with try_purchase_no_buy_unchanged [OF True] show ?thesis by simp
  next
    case False
    with try_purchase_buy_cases [of b p] obtain ev cookies ps q price where
      c: "get_cookie_count p = (ev, Inr cookies)" "num_le (purchase_threshold b) (PyInt cookies)"
        "enabled_products p = Inr ps" "ps \<noteq> []"
        "find_most_expensive_product ps = Inr (Some q, price)" "price \<le> cookies"
        "elem_click q = None"
      by blast
    note eq = try_purchase_bought [OF c]
    from find_most_expensive_product_result [OF c(5)] have pos: "1 \<le> price" by auto
    show ?thesis
    proof (cases "num_mul_float (purchase_threshold b) (3 / 2)")
      case (Inl e)
      with eq False show ?thesis by (simp add: outcome_defs)
    next
      case (Inr x)
      from threshold_update_grows [OF c(2) pos Inr] eq Inr False
      show ?thesis by (simp add: outcome_defs)
    qed
  qed
  then show "num_le (purchase_threshold b) (purchase_threshold (bot_of (try_purchase b p)))"
    by (auto intro: num_less_imp_le)
  assume "buys (events_of (try_purchase b p)) \<noteq> []" "raised (try_purchase b p) = None"
  with \<open>_ \<or> _\<close>
  show "num_less (purchase_threshold b) (purchase_threshold (bot_of (try_purchase b p)))"
    by auto
qed

lemma ticks_threshold_mono: "num_le (purchase_threshold b) (purchase_threshold (ticks b pages))"
proof (induction pages arbitrary: b)
  case Nil
  show ?case by (simp add: ticks_def)
next
  case (Cons p pages)
  have "ticks b (p # pages) = ticks (bot_of (try_purchase b p)) pages" by (simp add: ticks_def)
  with try_purchase_threshold(1) [of b p] Cons [of "bot_of (try_purchase b p)"]
  show ?case by (auto intro: num_le_trans)
qed

lemma try_purchase_overflow:
  assumes "get_cookie_count p = (ev, Inr cookies)"
    and "num_le (purchase_threshold b) (PyInt cookies)"
    and "enabled_products p = Inr ps" and "ps \<noteq> []"
    and "find_most_expensive_product ps = Inr (Some q, price)"
    and "price \<le> cookies" and "elem_click q = None"
    and "purchase_threshold b = PyInt n" and "2 ^ 1024 \<le> n"
  shows "try_purchase b p = (b\<lparr>purchase_count := purchase_count b + 1\<rparr>, ev @ [Buy (elem_id q)],
           Some OverflowError)"
proof -
  have "(2::rat) ^ 1024 \<le> of_int n" using assms(9)
    by (metis of_int_le_iff of_int_numeral of_int_power)
  then have "round_double (of_int n) = PosInf" by (rule round_double_overflow)
  then have "num_mul_float (purchase_threshold b) (3 / 2) = Inl OverflowError"
    using assms(8) by (simp add: num_mul_float_def float_of_int_def)
  with try_purchase_bought [OF assms(1-7)] show ?thesis by simp
qed

text \<open>
  Every exception that leaves \<open>try_purchase\<close> was raised by the browser session, or is the
  \<open>OverflowError\<close> of the threshold update: a text that does not parse never raises.
\<close>

lemma try_purchase_raises:
  assumes "raised (try_purchase b p) = Some e"
  shows "e = OverflowError
       \<or> cookies_count p = Inl e
       \<or> (\<exists>el. cookies_count p = Inr el \<and> elem_text el = Inl e)
       \<or> enabled_products p = Inl e
       \<or> (\<exists>ps q. enabled_products p = Inr ps \<and> q \<in> set ps
              \<and> (elem_text q = Inl e \<or> elem_click q = Some e))"
proof (cases "get_cookie_count p")
  case (Pair ev r)
  show ?thesis
  proof (cases r)
    case (Inl e')
    with Pair assms have e': "e' = e" by (simp add: try_purchase_def outcome_defs)
    from Pair Inl e' cookie_count_of_text_error
    have "cookies_count p = Inl e \<or> (\<exists>el. cookies_count p = Inr el \<and> elem_text el = Inl e)"
      by (auto simp: get_cookie_count_def split: sum.splits if_splits)
    then show ?thesis by blast
  next
    case (Inr cookies)
    show ?thesis
    proof (cases "enabled_products p")
      case (Inl e')
      with Pair Inr assms show ?thesis
        by (simp add: try_purchase_def outcome_defs split: if_splits)
    next
      case ps: (Inr ps)
      show ?thesis
      proof (cases "find_most_expensive_product ps")
        case (Inl e')
        with Pair Inr ps assms have "e' = e"
          by (simp add: try_purchase_def outcome_defs split: if_splits)
        with Inl find_most_expensive_loop_error [of ps 0 None e] ps show ?thesis
          by (auto simp: find_most_expensive_product_def)
      next
        case fm: (Inr res)
        obtain me price where res: "res = (me, price)" by (cases res)
        show ?thesis
        proof (cases me)
          case None
          with Pair Inr ps fm res assms show ?thesis
            by (simp add: try_purchase_def outcome_defs split: if_splits)
        next
          case (Some q)
          from find_most_expensive_product_result [of ps me price] fm res Some
          have "find (\<lambda>q. option_price q = Some price) ps = Some q" by auto
          then have mem: "q \<in> set ps" by (simp add: find_Some_mem)
          from Pair Inr ps fm res Some assms
          have "elem_click q = Some e
              \<or> num_mul_float (purchase_threshold (b\<lparr>purchase_count := purchase_count b + 1\<rparr>)) (3 / 2) = Inl e"
            by (auto simp: try_purchase_def outcome_defs purchase_upgrade_def Let_def
                     split: if_splits option.splits sum.splits)
          with num_mul_float_error mem ps show ?thesis by blast
        qed
      qed
    qed
  qed
qed

lemma overflow_after_dear_purchase:
  assumes "1 \<le> n" and "(2::int) ^ 1024 \<le> 2 * 10 ^ n"
  shows "try_purchase init_bot
     (game_page (one_and_zeros n @ '' cookies'') [product 10 ''Portal'' (one_and_zeros n)])
   = (\<lparr>purchase_threshold = PyInt (2 * 10 ^ n), click_count = 0, purchase_count = 1\<rparr>,
      [Buy 10, Print (Purchased (10 ^ n) 1)], None)
   \<and> try_purchase \<lparr>purchase_threshold = PyInt (2 * 10 ^ n), click_count = 0, purchase_count = 1\<rparr>
       (game_page (two_and_zeros n @ '' cookies'') [product 11 ''Cursor'' ''15''])
     = (\<lparr>purchase_threshold = PyInt (2 * 10 ^ n), click_count = 0, purchase_count = 2\<rparr>,
        [Buy 11], Some OverflowError)"
proof
  have ten: "(10::int) \<le> 10 ^ n" using assms(1) self_le_power [of "10::int" n] by simp
  let ?p1 = "game_page (one_and_zeros n @ '' cookies'') [product 10 ''Portal'' (one_and_zeros n)]"
  have c1: "get_cookie_count ?p1 = ([], Inr (10 ^ n))"
    using count_digit_zeros [OF one_is_decimal(1), of n] by (simp add: one_and_zeros_def one_is_decimal(2))
  have dv: "decimal_value (one_and_zeros n) = 10 ^ n"
    using digit_zeros(4) [OF one_is_decimal(1), of n] by (simp add: one_and_zeros_def one_is_decimal(2))
  have f1: "find_most_expensive_product [product 10 ''Portal'' (one_and_zeros n)]
            = Inr (Some (product 10 ''Portal'' (one_and_zeros n)), 10 ^ n)"
    using find_single_product [of "one_and_zeros n" 10 "''Portal''"]
      digit_zeros(2) [OF one_is_decimal(1), of n] dv
    by (simp add: one_and_zeros_def)
  have tenr: "(10::rat) \<le> 10 ^ n" using assms(1) self_le_power [of "10::rat" n] by simp
  have t1: "num_le (purchase_threshold init_bot) (PyInt (10 ^ n))"
    using tenr by (simp add: init_bot_def num_eval)
  have e1: "enabled_products ?p1 = Inr [product 10 ''Portal'' (one_and_zeros n)]"
    by (simp add: game_page_def)
  have k1: "elem_click (product 10 ''Portal'' (one_and_zeros n)) = None"
    "elem_id (product 10 ''Portal'' (one_and_zeros n)) = 10"
    by (simp_all add: product_def)
  have "(15::rat) < 10 ^ n * 2" using tenr by linarith
  then have m1: "py_max (PyInt (10 ^ n * 2)) (PyFloat (Fin 15)) = PyInt (2 * 10 ^ n)"
    by (simp add: num_eval mult.commute)
  from try_purchase_bought [OF c1 t1 e1 _ f1 _ k1(1)]
  show "try_purchase init_bot ?p1
      = (\<lparr>purchase_threshold = PyInt (2 * 10 ^ n), click_count = 0, purchase_count = 1\<rparr>,
         [Buy 10, Print (Purchased (10 ^ n) 1)], None)"
    by (simp add: init_bot_def mul_10_float k1(2) m1)
next
  let ?b = "\<lparr>purchase_threshold = PyInt (2 * 10 ^ n), click_count = 0, purchase_count = 1\<rparr>"
  let ?p2 = "game_page (two_and_zeros n @ '' cookies'') [product 11 ''Cursor'' ''15'']"
  have ten: "(10::int) \<le> 10 ^ n" using assms(1) self_le_power [of "10::int" n] by simp
  have c2: "get_cookie_count ?p2 = ([], Inr (2 * 10 ^ n))"
    using count_digit_zeros [OF two_is_decimal(1), of n] by (simp add: two_and_zeros_def two_is_decimal(2))
  have f2: "find_most_expensive_product [product 11 ''Cursor'' ''15'']
            = Inr (Some (product 11 ''Cursor'' ''15''), 15)"
    by (simp add: find_most_expensive_product_def parse_eval)
  have t2: "num_le (purchase_threshold ?b) (PyInt (2 * 10 ^ n))" by (simp add: num_eval)
  have e2: "enabled_products ?p2 = Inr [product 11 ''Cursor'' ''15'']"
    by (simp add: game_page_def)
  have k2: "elem_click (product 11 ''Cursor'' ''15'') = None" "elem_id (product 11 ''Cursor'' ''15'') = 11"
    by (simp_all add: product_def)
  have le: "(15::int) \<le> 2 * 10 ^ n" using ten by linarith
  have thr: "purchase_threshold ?b = PyInt (2 * 10 ^ n)" by simp
  from try_purchase_overflow [OF c2 t2 e2 _ f2 le k2(1) thr assms(2)]
  show "try_purchase ?b ?p2
     = (\<lparr>purchase_threshold = PyInt (2 * 10 ^ n), click_count = 0, purchase_count = 2\<rparr>,
        [Buy 11], Some OverflowError)"
    by (simp add: k2(2))
qed

text \<open>
  C3: the threshold never decreases (\<open>ticks_threshold_mono\<close>), and it strictly increases
  in every call that buys and returns (\<open>try_purchase_threshold\<close>).  But a call can buy and
  not return: when the threshold is an \<open>int\<close> too large for a float, \<open>purchase_threshold *
  1.5\<close> raises \<open>OverflowError\<close> after the click and after the purchase count was
  incremented.  Here the first call buys at price \<open>10^308\<close> and sets the threshold to the
  \<open>int\<close> \<open>2 * 10^308\<close>; the second call, with \<open>2 * 10^308\<close> cookies, buys the product
  priced 15, raises, and leaves the threshold where it was.
\<close>

theorem threshold_update_overflow:
  "try_purchase init_bot
     (game_page (one_and_zeros 308 @ '' cookies'') [product 10 ''Portal'' (one_and_zeros 308)])
   = (\<lparr>purchase_threshold = PyInt (2 * 10 ^ 308), click_count = 0, purchase_count = 1\<rparr>,
      [Buy 10, Print (Purchased (10 ^ 308) 1)], None)
   \<and> try_purchase \<lparr>purchase_threshold = PyInt (2 * 10 ^ 308), click_count = 0, purchase_count = 1\<rparr>
       (game_page (two_and_zeros 308 @ '' cookies'') [product 11 ''Cursor'' ''15''])
     = (\<lparr>purchase_threshold = PyInt (2 * 10 ^ 308), click_count = 0, purchase_count = 2\<rparr>,
        [Buy 11], Some OverflowError)"
  by (rule overflow_after_dear_purchase) simp_all

subsection \<open>The threshold stays at least 10\<close>

lemma threshold_ok_try_purchase:
  "threshold_ok b \<Longrightarrow> threshold_ok (bot_of (try_purchase b p))"
  unfolding threshold_ok_def by (erule num_le_trans) (rule try_purchase_threshold(1))

lemma threshold_ok_ticks: "threshold_ok b \<Longrightarrow> threshold_ok (ticks b pages)"
  unfolding threshold_ok_def by (erule num_le_trans) (rule ticks_threshold_mono)

lemma then_do_bot:
  "bot_of (then_do r f) = bot_of r \<or> bot_of (then_do r f) = bot_of (f (bot_of r))"
  by (cases r; cases "snd (snd r)") (auto simp: then_do_def outcome_defs split: prod.splits)

lemma run_body_bot:
  "bot_of (run_body b p) = b
   \<or> bot_of (run_body b p) = b\<lparr>click_count := click_count b + 1\<rparr>
   \<or> bot_of (run_body b p) = bot_of (try_purchase (b\<lparr>click_count := click_count b + 1\<rparr>) p)"
proof -
  let ?b1 = "b\<lparr>click_count := click_count b + 1\<rparr>"
  let ?F = "\<lambda>b1. if click_count b1 mod 10 = 0 then try_purchase b1 p else (b1, [], None)"
  let ?G = "\<lambda>b2. if click_count b2 mod 100 = 0
                  then (case get_cookie_count p of
                          (ev', Inl e) \<Rightarrow> (b2, ev', Some e)
                        | (ev', Inr cookies) \<Rightarrow>
                            (b2, ev' @ [Print (Status (click_count b2) cookies (purchase_count b2))], None))
                  else (b2, [], None)"
  have F: "bot_of (?F ?b1) = ?b1 \<or> bot_of (?F ?b1) = bot_of (try_purchase ?b1 p)"
    by (simp add: outcome_defs)
  have G: "\<And>b2. bot_of (?G b2) = b2"
    by (simp add: outcome_defs split: prod.splits sum.splits)
  have X: "bot_of (then_do (?b1, ev, None) ?F) = ?b1
      \<or> bot_of (then_do (?b1, ev, None) ?F) = bot_of (try_purchase ?b1 p)" for ev
    using then_do_bot [of "(?b1, ev, None)" ?F] F by (auto simp: outcome_defs)
  have Y: "bot_of (then_do (then_do (?b1, ev, None) ?F) ?G) = bot_of (then_do (?b1, ev, None) ?F)" for ev
    using then_do_bot [of "then_do (?b1, ev, None) ?F" ?G] by (auto simp only: G)
  obtain ev r where cc: "click_cookie p = (ev, r)" by (cases "click_cookie p")
  show ?thesis
  proof (cases r)
    case (Inl e)
    with cc show ?thesis by (simp add: run_body_def outcome_defs)
  next
    case (Inr u)
    with cc have "run_body b p = then_do (then_do (?b1, ev, None) ?F) ?G"
      by (simp add: run_body_def)
    with X [of ev] Y [of ev] show ?thesis by simp
  qed
qed

lemma reachable_run_body: "reachable b \<Longrightarrow> reachable (bot_of (run_body b p))"
  using run_body_bot [of b p] reachable_click [of b]
    reachable_try_purchase [of "b\<lparr>click_count := click_count b + 1\<rparr>" p]
  by auto

lemma reachable_run_loop:
  "reachable b \<Longrightarrow> run_loop d s b fs = Some r \<Longrightarrow> reachable (bot_of r)"
proof (induction fs arbitrary: b r)
  case Nil
  then show ?case by simp
next
  case (Cons f fs)
  show ?case
  proof (cases "loop_condition d s f")
    case False
    with Cons.prems have "r = print_statistics b (view f)" by (simp add: loop_condition_def)
    then have "bot_of r = b"
      by (simp add: print_statistics_def outcome_defs split: prod.splits sum.splits)
    with Cons.prems show ?thesis by simp
  next
    case True
    obtain b' evs x where rb: "run_body b (view f) = (b', evs, x)" by (cases "run_body b (view f)")
    from reachable_run_body [OF Cons.prems(1), of "view f"] rb have rb': "reachable b'"
      by (simp add: outcome_defs)
    show ?thesis
    proof (cases x)
      case (Some e)
      with True rb Cons.prems(2) have "r = (b', evs, Some e)" by (simp add: loop_condition_def)
      with rb' show ?thesis by (simp add: outcome_defs)
    next
      case None
      with True rb Cons.prems(2) obtain r' where r': "run_loop d s b' fs = Some r'"
        and r: "bot_of r = bot_of r'"
        by (auto simp: loop_condition_def outcome_defs split: prod.splits)
      from Cons.IH [OF rb' r'] r show ?thesis by simp
    qed
  qed
qed

lemma reachable_run: "reachable b \<Longrightarrow> run d s b fs = Some r \<Longrightarrow> reachable (bot_of r)"
proof -
  assume b: "reachable b" and r: "run d s b fs = Some r"
  then obtain r' where "run_loop d s b fs = Some r'" and "bot_of r = bot_of r'"
    by (auto simp: run_def outcome_defs split: prod.splits)
  with reachable_run_loop [OF b] show ?thesis by simp
qed

lemma reachable_threshold_ok: "reachable b \<Longrightarrow> threshold_ok b"
proof (induction rule: reachable.induct)
  case reachable_init
  show ?case by (simp add: threshold_ok_def init_bot_def)
next
  case (reachable_click b)
  then show ?case by (simp add: threshold_ok_def)
next
  case (reachable_try_purchase b p)
  from reachable_try_purchase.IH show ?case by (rule threshold_ok_try_purchase)
qed

text \<open>
  C10: \<open>purchase_threshold\<close> is 10 at the start and at least 10 in every bot the
  program can reach; so when \<open>get_cookie_count\<close> gives 0, as it does when the counter
  text does not parse, \<open>_try_purchase\<close> takes the below-threshold branch: it issues no
  buy, raises nothing and changes nothing.
\<close>

theorem threshold_at_least_10:
  assumes "reachable b"
  shows "num_le (PyInt 10) (purchase_threshold b)
       \<and> (snd (get_cookie_count p) = Inr 0 \<longrightarrow>
            try_purchase b p = (b, fst (get_cookie_count p), None)
            \<and> buys (fst (get_cookie_count p)) = [])"
proof -
  have t: "num_le (PyInt 10) (purchase_threshold b)"
    using reachable_threshold_ok [OF assms] by (simp add: threshold_ok_def)
  have "try_purchase b p = (b, fst (get_cookie_count p), None)
        \<and> buys (fst (get_cookie_count p)) = []"
    if z: "snd (get_cookie_count p) = Inr 0"
  proof -
    have g: "get_cookie_count p = (fst (get_cookie_count p), Inr 0)"
      using z by (simp add: prod_eq_iff)
    have "num_less (PyInt 0) (PyInt 10)" by (simp add: num_less_def)
    from this t have "num_less (PyInt 0) (purchase_threshold b)" by (rule num_less_le_trans)
    from try_purchase_below_threshold [OF g this] get_cookie_count_buys [OF g]
    show ?thesis by simp
  qed
  with t show ?thesis by blast
qed

theorem threshold_at_least_10_witness:
  "reachable (bot_of (try_purchase init_bot (game_page ''300 cookies'' spec_options)))
   \<and> snd (get_cookie_count (counter_page ''1.5 million cookies'')) = Inr 0
   \<and> num_le (PyInt 10)
       (purchase_threshold (bot_of (try_purchase init_bot (game_page ''300 cookies'' spec_options))))
   \<and> try_purchase (bot_of (try_purchase init_bot (game_page ''300 cookies'' spec_options)))
        (counter_page ''1.5 million cookies'')
      = (bot_of (try_purchase init_bot (game_page ''300 cookies'' spec_options)),
         fst (get_cookie_count (counter_page ''1.5 million cookies'')), None)"
proof -
  let ?b = "bot_of (try_purchase init_bot (game_page ''300 cookies'' spec_options))"
  have r: "reachable ?b" by (intro reachable_try_purchase reachable_init)
  have z: "snd (get_cookie_count (counter_page ''1.5 million cookies'')) = Inr 0"
    by (simp add: parse_eval counter_page_def)
  from threshold_at_least_10 [OF r, of "counter_page ''1.5 million cookies''"] r z
  show ?thesis by blast
qed

section \<open>The loop of \<open>run\<close>\<close>

lemma then_do_assoc: "then_do (then_do r f) g = then_do r (\<lambda>b. then_do (f b) g)"
  by (auto simp: then_do_def split: prod.splits option.splits)






lemma stale_frame_condition: "loop_condition (PyInt 60) 0 stale_frame"
  by (simp add: loop_condition_def stale_frame_def float_sub_same num_eval)

lemma stale_tick:
  "try_purchase (init_bot\<lparr>click_count := 10\<rparr>) (game_page ''15 cookies'' [stale_product])
   = (init_bot\<lparr>click_count := 10\<rparr>, [], Some StaleElementReferenceException)"
proof -
  have t: "num_le (purchase_threshold (init_bot\<lparr>click_count := 10\<rparr>)) (PyInt 15)"
    by (simp add: init_bot_def num_eval)
  show ?thesis
    by (rule try_purchase_found(2) [OF stale_page_facts(1) t stale_page_facts(2) _ stale_page_facts(3) _
          stale_page_facts(4)]) simp_all
qed

lemma stale_body:
  "run_body (init_bot\<lparr>click_count := 9\<rparr>) (game_page ''15 cookies'' [stale_product])
   = (init_bot\<lparr>click_count := 10\<rparr>, [CookieClick], Some StaleElementReferenceException)"
proof -
  have "(init_bot\<lparr>click_count := 9\<rparr>)\<lparr>click_count := click_count (init_bot\<lparr>click_count := 9\<rparr>) + 1\<rparr>
        = init_bot\<lparr>click_count := 10\<rparr>"
    by simp
  then show ?thesis
    using stale_tick
    by (simp add: run_body_def click_cookie_def stale_page_facts(5) then_do_def)
qed



subsection \<open>A product that vanished\<close>

text \<open>
  C8 as stated fails: the click on a vanished product raises, nothing catches the
  exception, and \<open>run\<close> ends with it: the second frame is never reached and no statistics
  are printed.
\<close>

theorem stale_buy_aborts_run:
  "run (PyInt 60) 0 (init_bot\<lparr>click_count := 9\<rparr>) [stale_frame, stale_frame]
   = Some (init_bot\<lparr>click_count := 10\<rparr>, [Print (Running (PyInt 60)), CookieClick],
           Some StaleElementReferenceException)"
proof -
  have v: "view stale_frame = game_page ''15 cookies'' [stale_product]"
    by (simp add: stale_frame_def)
  have "run_loop (PyInt 60) 0 (init_bot\<lparr>click_count := 9\<rparr>) [stale_frame, stale_frame]
        = Some (init_bot\<lparr>click_count := 10\<rparr>, [CookieClick], Some StaleElementReferenceException)"
    using stale_frame_condition by (simp add: loop_condition_def v stale_body)
  then show ?thesis by (simp add: run_def)
qed

text \<open>
  C8 (amended): when the click on the selected product raises, \<open>_try_purchase\<close> raises
  the same exception and leaves the purchase count and the threshold unchanged; in the
  loop of \<open>run\<close> the exception ends the loop at once, with the click on the cookie counted
  and nothing else changed.
\<close>

theorem stale_buy_propagates:
  assumes "get_cookie_count p = (ev, Inr cookies)"
    and "num_le (purchase_threshold b) (PyInt cookies)"
    and "enabled_products p = Inr ps"
    and "find_most_expensive_product ps = Inr (Some q, price)"
    and "price \<le> cookies" and "elem_click q = Some e"
  shows "try_purchase b p = (b, ev, Some e)
       \<and> (\<forall>d s b0 f fs c.
             b = b0\<lparr>click_count := click_count b0 + 1\<rparr> \<and> click_count b mod 10 = 0
             \<and> view f = p \<and> loop_condition d s f \<and> big_cookie p = Inr c \<and> elem_click c = None
             \<longrightarrow> run_loop d s b0 (f # fs) = Some (b, CookieClick # ev, Some e))"
proof -
  have ne: "ps \<noteq> []" using assms(4) find_most_expensive_product_Nil by auto
  have tp: "try_purchase b p = (b, ev, Some e)"
    by (rule try_purchase_found(2) [OF assms(1,2,3) ne assms(4,5,6)])
  have rl: "run_loop d s b0 (f # fs) = Some (b, CookieClick # ev, Some e)"
    if "b = b0\<lparr>click_count := click_count b0 + 1\<rparr> \<and> click_count b mod 10 = 0
             \<and> view f = p \<and> loop_condition d s f \<and> big_cookie p = Inr c \<and> elem_click c = None"
    for d s b0 f fs c
  proof -
    from that have b: "b = b0\<lparr>click_count := click_count b0 + 1\<rparr>"
      and m: "click_count (b0\<lparr>click_count := click_count b0 + 1\<rparr>) mod 10 = 0"
      and v: "view f = p" and l: "loop_condition d s f"
      and c: "big_cookie p = Inr c" "elem_click c = None"
      by auto
    from tp b have "try_purchase (b0\<lparr>click_count := click_count b0 + 1\<rparr>) p = (b, ev, Some e)"
      by simp
    with m c have "run_body b0 p = (b, CookieClick # ev, Some e)"
      by (simp add: run_body_def click_cookie_def then_do_def)
    with v l show ?thesis by (simp add: loop_condition_def)
  qed
  show ?thesis
  proof (intro conjI allI impI)
    show "try_purchase b p = (b, ev, Some e)" by (rule tp)
  next
    fix d s b0 fs c and f :: frame
    assume "b = b0\<lparr>click_count := click_count b0 + 1\<rparr> \<and> click_count b mod 10 = 0
             \<and> view f = p \<and> loop_condition d s f \<and> big_cookie p = Inr c \<and> elem_click c = None"
    then show "run_loop d s b0 (f # fs) = Some (b, CookieClick # ev, Some e)" by (rule rl)
  qed
qed

theorem stale_buy_propagates_witness:
  "try_purchase (init_bot\<lparr>click_count := 10\<rparr>) (game_page ''15 cookies'' [stale_product])
     = (init_bot\<lparr>click_count := 10\<rparr>, [], Some StaleElementReferenceException)
   \<and> run_loop (PyInt 60) 0 (init_bot\<lparr>click_count := 9\<rparr>) [stale_frame, stale_frame]
     = Some (init_bot\<lparr>click_count := 10\<rparr>, [CookieClick], Some StaleElementReferenceException)"
proof -
  let ?b = "init_bot\<lparr>click_count := 10\<rparr>"
  have t: "num_le (purchase_threshold ?b) (PyInt 15)" by (simp add: init_bot_def num_eval)
  note w = stale_buy_propagates [OF stale_page_facts(1) t stale_page_facts(2,3) _ stale_page_facts(4)]
  have h: "?b = (init_bot\<lparr>click_count := 9\<rparr>)\<lparr>click_count := click_count (init_bot\<lparr>click_count := 9\<rparr>) + 1\<rparr>
      \<and> click_count ?b mod 10 = 0
      \<and> view stale_frame = game_page ''15 cookies'' [stale_product]
      \<and> loop_condition (PyInt 60) 0 stale_frame
      \<and> big_cookie (game_page ''15 cookies'' [stale_product])
           = Inr \<lparr>elem_id = 0, elem_text = Inr [], elem_click = None\<rparr>
      \<and> elem_click \<lparr>elem_id = 0, elem_text = Inr [], elem_click = None\<rparr> = None"
    by (simp add: stale_frame_condition stale_page_facts(5)) (simp add: stale_frame_def)
  have le: "(15::int) \<le> 15" by simp
  from w [OF le, THEN conjunct1]
  have "try_purchase ?b (game_page ''15 cookies'' [stale_product])
     = (?b, [], Some StaleElementReferenceException)" .
  moreover from w [OF le, THEN conjunct2, rule_format, OF h]
  have "run_loop (PyInt 60) 0 (init_bot\<lparr>click_count := 9\<rparr>) [stale_frame, stale_frame]
     = Some (?b, [CookieClick], Some StaleElementReferenceException)" .
  ultimately show ?thesis by (rule conjI)
qed

section \<open>The loop of the first script\<close>

text \<open>
  The first script parses the counter with the same expression; when it fails, the
  iteration ends after the click on the cookie: no buy, no exception, counter unchanged.
\<close>

lemma legacy_parse_failure_skips:
  assumes "cookie_button_click v = None" and "cookies_text v = Inr t"
    and "cookie_count_of_text t = Inl e"
  shows "legacy_iteration counter v = (counter, [CookieClick, Print (LegacyFailedToParse t)], None)"
  using assms cookie_count_of_text_error [OF assms(3)]
  by (auto simp: legacy_iteration_def)

text \<open>
  C2: in \<open>CookieClickerBot\<close> a buy is issued only for a price that is at most the cookie
  count read (\<open>try_purchase_buy_affordable\<close>).  The loop of the first script has no such
  check: with counter 1.6 and 20 cookies (\<open>16.0 < 20\<close>) it clicks the only enabled button,
  whose price is 100.
\<close>

theorem legacy_loop_buys_unaffordable:
  "legacy_iteration legacy_counter
     \<lparr>cookie_button_click = None, cookies_text = Inr ''20 cookies'',
      buy_buttons = Inr [product 10 ''Grandma'' ''100'']\<rparr>
   = (Fin 16, [CookieClick, Print (NoOfCookies 20), Buy 10, Print (CounterUpdated (Fin 16))], None)"
  by (simp add: legacy_iteration_def legacy_counter_times_10 parse_eval num_eval Let_def)

text \<open>
  C4: in \<open>CookieClickerBot\<close> a text that does not parse never raises
  (\<open>try_purchase_raises\<close>).  In the loop of the first script, when no enabled button has
  a price, \<open>most_expensive\<close> is still \<open>None\<close> at \<open>most_expensive.click()\<close>, which raises
  \<open>AttributeError\<close>.
\<close>

theorem legacy_loop_raises_without_price:
  "legacy_iteration legacy_counter
     \<lparr>cookie_button_click = None, cookies_text = Inr ''20 cookies'',
      buy_buttons = Inr [\<lparr>elem_id = 10, elem_text = Inr ''Upgrade'', elem_click = None\<rparr>]\<rparr>
   = (legacy_counter, [CookieClick, Print (NoOfCookies 20)], Some AttributeError)"
  by (simp add: legacy_iteration_def legacy_counter_times_10 parse_eval num_eval Let_def)

end
